theory Spec2Isabelle
  imports Main "HOL-Library.Word" "HOL-Library.Signed_Division" "HOL-Library.Multiset"
begin

unbundle bit_operations_syntax

section \<open>JavaScript values\<close>

text \<open>
  BigInt values are unbounded integers (\<open>int\<close>). The operators \<open>/\<close> and \<open>%\<close> on
  BigInt truncate towards zero: they are \<open>sdiv\<close> and \<open>smod\<close>; both throw a RangeError on
  a zero divisor, which the model writes out wherever the source does not exclude it.
  Every \<open>throw\<close> of the source is a constructor of \<open>error\<close>; the exceptions of the
  JavaScript runtime and of the libraries are \<open>RangeError\<close>, \<open>SyntaxError\<close> and
  \<open>TypeError\<close>.
\<close>

datatype error =
    PublicKeyRequired
  | PublicKeyRequiredForAddition
  | KeyTooSmall int
  | RandomFailed
  | NTooSmall
  | NoCoprime
  | InvalidVoteStructure
  | PrivateKeyRequired
  | NoValidKeys
  | SharesNotAvailable
  | InsufficientShares nat nat
  | PrimeFailed nat nat
  | RangeError
  | SyntaxError
  | TypeError

definition bindE :: "error + 'a \<Rightarrow> ('a \<Rightarrow> error + 'b) \<Rightarrow> error + 'b" where
  "bindE m f = (case m of Inl e \<Rightarrow> Inl e | Inr v \<Rightarrow> f v)"

subsection \<open>Decimal strings\<close>

text \<open>
  \<open>BigInt.prototype.toString()\<close> prints decimal digits with a leading minus sign for a
  negative value. \<open>BigInt(string)\<close> trims white space, reads the empty string as \<open>0n\<close>,
  accepts a sign before decimal digits and the prefixes \<open>0x\<close>, \<open>0o\<close>, \<open>0b\<close> (without
  sign), and throws a SyntaxError on anything else. A string is a list of code units
  below 256 (type \<open>char\<close>); the white space and line terminators of JavaScript in this
  range are TAB, LF, VT, FF, CR, the space and the no-break space U+00A0 (the others,
  such as U+2028 or U+FEFF, lie above it).
\<close>

definition digit_chars :: string where
  "digit_chars = ''0123456789abcdefghijklmnopqrstuvwxyz''"

fun index_of :: "'a \<Rightarrow> 'a list \<Rightarrow> nat option" where
  "index_of c [] = None"
| "index_of c (x # xs) =
     (if c = x then Some 0 else map_option Suc (index_of c xs))"

definition lower_char :: "char \<Rightarrow> char" where
  "lower_char c =
     (let k = of_char c :: nat in if 65 \<le> k \<and> k \<le> 90 then char_of (k + 32) else c)"

definition digit_val :: "nat \<Rightarrow> char \<Rightarrow> nat option" where
  "digit_val base c =
     (case index_of (lower_char c) digit_chars of
        None \<Rightarrow> None
      | Some d \<Rightarrow> if d < base then Some d else None)"

fun parse_digits :: "nat \<Rightarrow> nat \<Rightarrow> string \<Rightarrow> nat option" where
  "parse_digits base acc [] = Some acc"
| "parse_digits base acc (c # cs) =
     (case digit_val base c of
        None \<Rightarrow> None
      | Some d \<Rightarrow> parse_digits base (acc * base + d) cs)"

definition parse_nat :: "nat \<Rightarrow> string \<Rightarrow> nat option" where
  "parse_nat base s = (if s = [] then None else parse_digits base 0 s)"

definition is_space :: "char \<Rightarrow> bool" where
  "is_space c =
     (c \<in> set [CHR '' '', CHR 0x09, CHR 0x0A, CHR 0x0B, CHR 0x0C, CHR 0x0D, CHR 0xA0])"

definition trim :: "string \<Rightarrow> string" where
  "trim s = rev (dropWhile is_space (rev (dropWhile is_space s)))"

definition StringToBigInt :: "string \<Rightarrow> error + int" where
  "StringToBigInt s =
     (let t = trim s in
      if t = [] then Inr 0
      else if take 2 (map lower_char t) = ''0x'' then
        (case parse_nat 16 (drop 2 t) of None \<Rightarrow> Inl SyntaxError | Some k \<Rightarrow> Inr (int k))
      else if take 2 (map lower_char t) = ''0o'' then
        (case parse_nat 8 (drop 2 t) of None \<Rightarrow> Inl SyntaxError | Some k \<Rightarrow> Inr (int k))
      else if take 2 (map lower_char t) = ''0b'' then
        (case parse_nat 2 (drop 2 t) of None \<Rightarrow> Inl SyntaxError | Some k \<Rightarrow> Inr (int k))
      else if hd t = CHR ''-'' then
        (case parse_nat 10 (tl t) of None \<Rightarrow> Inl SyntaxError | Some k \<Rightarrow> Inr (- int k))
      else if hd t = CHR ''+'' then
        (case parse_nat 10 (tl t) of None \<Rightarrow> Inl SyntaxError | Some k \<Rightarrow> Inr (int k))
      else
        (case parse_nat 10 t of None \<Rightarrow> Inl SyntaxError | Some k \<Rightarrow> Inr (int k)))"

function digits_of :: "nat \<Rightarrow> nat \<Rightarrow> string \<Rightarrow> string" where
  "digits_of base k acc =
     (if base < 2 \<or> k < base then (digit_chars ! k) # acc
      else digits_of base (k div base) ((digit_chars ! (k mod base)) # acc))"
  by pat_completeness auto
termination
  by (relation "measure (\<lambda>(base, k, acc). k)") auto

declare digits_of.simps [simp del]

definition toStringRadix :: "nat \<Rightarrow> int \<Rightarrow> string" where
  "toStringRadix base i =
     (if i < 0 then CHR ''-'' # digits_of base (nat (- i)) [] else digits_of base (nat i) [])"

definition toString :: "int \<Rightarrow> string" where
  "toString i = toStringRadix 10 i"

definition decimal_digits :: "char set" where
  "decimal_digits = set ''0123456789''"


subsection \<open>Random bytes\<close>

text \<open>
  \<open>randomBytes(len)\<close> of \<open>node:crypto\<close> returns \<open>len\<close> fresh bytes. The source of
  randomness is a function giving byte \<open>i\<close> of the \<open>k\<close>-th buffer drawn; the number of
  buffers drawn so far is threaded through every function that draws.
\<close>

type_synonym byte = "8 word"
type_synonym rng = "nat \<Rightarrow> nat \<Rightarrow> byte"

definition randomBytes :: "rng \<Rightarrow> nat \<Rightarrow> nat \<Rightarrow> byte list \<times> nat" where
  "randomBytes R len k = (map (R k) [0..<len], Suc k)"

text \<open>The loop \<open>r = (r << 8n) | BigInt(buffer[i])\<close> over a buffer.\<close>

definition bytes_to_bigint :: "byte list \<Rightarrow> int" where
  "bytes_to_bigint buffer = foldl (\<lambda>r b. push_bit 8 r OR uint b) 0 buffer"

text \<open>\<open>x.toString(2).length\<close>: the number of binary digits, and one more for a sign.\<close>

definition binary_length :: "int \<Rightarrow> nat" where
  "binary_length x = length (toStringRadix 2 x)"

definition byte_length :: "int \<Rightarrow> nat" where
  "byte_length x = (binary_length x + 7) div 8"

section \<open>Modular arithmetic\<close>

text \<open>
  The library \<open>bigint-crypto-utils\<close> is imported by the source, not part of it; its
  functions are modelled after the library's own code. \<open>toZn\<close> gives the least
  non-negative residue and rejects a modulus that is not positive; \<open>eGcd\<close> is the
  iterative extended Euclidean algorithm and rejects arguments that are not positive;
  \<open>modInv\<close> throws when the argument has no inverse; \<open>modPow\<close> is square-and-multiply,
  with a negative exponent inverting the power.
\<close>

definition toZn :: "int \<Rightarrow> int \<Rightarrow> error + int" where
  "toZn a n =
     (if n \<le> 0 then Inl RangeError
      else let aZn = a smod n in Inr (if aZn < 0 then aZn + n else aZn))"

function eGcd_loop :: "int \<Rightarrow> int \<Rightarrow> int \<Rightarrow> int \<Rightarrow> int \<Rightarrow> int \<Rightarrow> int \<times> int \<times> int" where
  "eGcd_loop a b x y u v =
     (if a \<noteq> 0 then
        (let q = b sdiv a; r = b smod a; m = x - u * q; n = y - v * q
         in eGcd_loop r a u v m n)
      else (b, x, y))"
  by pat_completeness auto
termination
proof (relation "measure (\<lambda>(a, b, x, y, u, v). nat \<bar>a\<bar>)")
  show "wf (measure (\<lambda>(a, b, x, y, u, v). nat \<bar>a\<bar>))" by simp
next
  fix a b x y u v :: int and q r m n :: int
  assume "a \<noteq> 0" and r: "r = b smod a"
  then have "\<bar>b smod a\<bar> < \<bar>a\<bar>"
    using smod_int_range [of a b] by auto
  with r show "((r, a, u, v, m, n), (a, b, x, y, u, v))
      \<in> measure (\<lambda>(a, b, x, y, u, v). nat \<bar>a\<bar>)"
    by simp
qed

declare eGcd_loop.simps [simp del]

definition eGcd :: "int \<Rightarrow> int \<Rightarrow> error + int \<times> int \<times> int" where
  "eGcd a b = (if a \<le> 0 \<or> b \<le> 0 then Inl RangeError else Inr (eGcd_loop a b 0 1 1 0))"

definition modInv :: "int \<Rightarrow> int \<Rightarrow> error + int" where
  "modInv a n =
     bindE (toZn a n) (\<lambda>aZn.
     bindE (eGcd aZn n) (\<lambda>(g, x, y).
       if g \<noteq> 1 then Inl RangeError else toZn x n))"

function modPow_loop :: "int \<Rightarrow> int \<Rightarrow> int \<Rightarrow> int \<Rightarrow> int" where
  "modPow_loop r b e n =
     (if e > 0 then
        modPow_loop (if e smod 2 = 1 then (r * b) smod n else r) (b ^ 2 smod n) (e sdiv 2) n
      else r)"
  by pat_completeness auto
termination
proof (relation "measure (\<lambda>(r, b, e, n). nat e)")
  show "wf (measure (\<lambda>(r, b, e, n). nat e))" by simp
next
  fix r b e n :: int
  assume "0 < e"
  then have "e sdiv 2 = e div 2"
    by (simp add: signed_divide_int_def sgn_if)
  with \<open>0 < e\<close> show "((if e smod 2 = 1 then (r * b) smod n else r, b ^ 2 smod n, e sdiv 2, n),
      (r, b, e, n)) \<in> measure (\<lambda>(r, b, e, n). nat e)"
    by simp
qed

declare modPow_loop.simps [simp del]

definition modPow :: "int \<Rightarrow> int \<Rightarrow> int \<Rightarrow> error + int" where
  "modPow b e n =
     (if n \<le> 0 then Inl RangeError
      else if n = 1 then Inr 0
      else bindE (toZn b n) (\<lambda>b'.
        if e < 0 then modInv (modPow_loop 1 b' (\<bar>e\<bar>) n) n
        else Inr (modPow_loop 1 b' e n)))"


section \<open>The homomorphic encryption engine\<close>

text \<open>
  Class \<open>HomomorphicEncryption\<close>. Key material is BigInt; ciphertexts and the
  randomness of an encryption cross the interface as decimal strings.
\<close>

record publicKey =
  pk_n :: int
  pk_g :: int
  pk_nsq :: int

record privateKey =
  sk_lambda :: int
  sk_mu :: int
  sk_n :: int
  sk_nsq :: int

record keyShare =
  share_id :: int
  share_value :: int

text \<open>
  \<open>privateKeyShares\<close>: in the threshold format the object has a \<open>shares\<close> array; in the
  single-key format \<open>setPrivateKeyShares\<close> stores the raw data, which has none
  (\<open>ks_shares = None\<close>).
\<close>

record keyShares =
  ks_shares :: "keyShare list option"
  ks_mu :: int
  ks_n :: int
  ks_nsq :: int
  ks_thresholdN :: nat
  ks_thresholdK :: nat

record thresholdParams =
  tp_n :: nat
  tp_k :: nat

record engine =
  keySize :: nat
  publicKey :: "publicKey option"
  privateKey :: "privateKey option"
  privateKeyShares :: "keyShares option"
  thresholdParams :: "thresholdParams option"

record encryptedVote =
  ciphertext :: string
  randomness :: string

subsection \<open>Helper functions\<close>

text \<open>\<open>L(u, n) = (u - 1n) / n\<close>, \<open>gcd\<close> (the loop \<open>[a, b] = [b, a % b]\<close>) and \<open>lcm\<close>.\<close>

definition L :: "int \<Rightarrow> int \<Rightarrow> error + int" where
  "L u n = (if n = 0 then Inl RangeError else Inr ((u - 1) sdiv n))"

function gcd_loop :: "int \<Rightarrow> int \<Rightarrow> int" where
  "gcd_loop a b = (if b \<noteq> 0 then gcd_loop b (a smod b) else a)"
  by pat_completeness auto
termination
proof (relation "measure (\<lambda>(a, b). nat \<bar>b\<bar>)")
  show "wf (measure (\<lambda>(a, b). nat \<bar>b\<bar>))" by simp
next
  fix a b :: int
  assume "b \<noteq> 0"
  then have "\<bar>a smod b\<bar> < \<bar>b\<bar>"
    using smod_int_range [of b a] by auto
  then show "((b, a smod b), (a, b)) \<in> measure (\<lambda>(a, b). nat \<bar>b\<bar>)"
    by simp
qed

declare gcd_loop.simps [simp del]

definition lcm_js :: "int \<Rightarrow> int \<Rightarrow> error + int" where
  "lcm_js a b = (if gcd_loop a b = 0 then Inl RangeError else Inr ((a * b) sdiv gcd_loop a b))"

text \<open>
  \<open>Number(m)\<close> for a BigInt: the nearest double, ties to even. Integers of magnitude up
  to \<open>2^53\<close> are exact; a result of magnitude \<open>2^1024\<close> or more is an infinity.
\<close>

datatype number = Finite int | Infinity | MinusInfinity

definition Number :: "int \<Rightarrow> number" where
  "Number m =
     (let a = \<bar>m\<bar> in
      if a < 2 ^ 53 then Finite m
      else
        let e = binary_length a - 53;
            q = a div 2 ^ e;
            r = a mod 2 ^ e;
            h = 2 ^ (e - 1);
            q' = (if r > h \<or> (r = h \<and> odd q) then q + 1 else q);
            v = q' * 2 ^ e
        in if v \<ge> 2 ^ 1024 then (if m < 0 then MinusInfinity else Infinity)
           else Finite (sgn m * v))"

subsection \<open>Encryption\<close>

definition maxAttempts :: nat where
  "maxAttempts = 1000"

text \<open>
  The \<open>do ... while\<close> loop of \<open>encrypt\<close>. \<open>attempts\<close> is the counter before the
  iteration; the result carries the drawn \<open>r\<close> and the counter after the loop.
\<close>

function encrypt_loop :: "rng \<Rightarrow> int \<Rightarrow> nat \<Rightarrow> nat \<Rightarrow> (error + int \<times> nat) \<times> nat" where
  "encrypt_loop R n attempts k =
     (if attempts > maxAttempts then (Inl RandomFailed, k)
      else
        let attempts' = attempts + 1;
            (buffer, k') = randomBytes R (byte_length n) k;
            r0 = bytes_to_bigint buffer
        in if n \<le> 2 then (Inl NTooSmall, k')
           else
             let r = (r0 smod (n - 2)) + 2
             in if gcd_loop r n \<noteq> 1 \<and> attempts' < maxAttempts
                then encrypt_loop R n attempts' k'
                else (Inr (r, attempts'), k'))"
  by pat_completeness auto
termination
  by (relation "measure (\<lambda>(R, n, attempts, k). maxAttempts - attempts)")
     (auto simp: randomBytes_def)

declare encrypt_loop.simps [simp del]

definition encrypt :: "rng \<Rightarrow> int \<Rightarrow> publicKey option \<Rightarrow> nat \<Rightarrow> (error + encryptedVote) \<times> nat" where
  "encrypt R vote pubKey k =
     (case pubKey of
        None \<Rightarrow> (Inl PublicKeyRequired, k)
      | Some key \<Rightarrow>
          let n = pk_n key; g = pk_g key; nsq = pk_nsq key; m = vote
          in if n \<le> 100 then (Inl (KeyTooSmall n), k)
             else
               (case encrypt_loop R n 0 k of
                  (Inl e, k') \<Rightarrow> (Inl e, k')
                | (Inr (r, attempts), k') \<Rightarrow>
                    if attempts \<ge> maxAttempts then (Inl NoCoprime, k')
                    else
                      (bindE (modPow g m nsq) (\<lambda>gm.
                       bindE (modPow r n nsq) (\<lambda>rn.
                         let c = (gm * rn) smod nsq
                         in Inr \<lparr>ciphertext = toString c, randomness = toString r\<rparr>)), k')))"

subsection \<open>Homomorphic addition and decryption\<close>

text \<open>
  An element of \<open>encryptedVotes\<close> is a string, or an object that may have a
  \<open>ciphertext\<close> property and a \<open>homomorphic_data.ciphertext\<close> property. A property is
  truthy when it is present and not the empty string.
\<close>

datatype voteRef =
    VoteString string
  | VoteObject "string option" "string option"

definition truthy :: "string option \<Rightarrow> bool" where
  "truthy p = (case p of None \<Rightarrow> False | Some s \<Rightarrow> s \<noteq> [])"

fun vote_ciphertext :: "voteRef \<Rightarrow> error + string" where
  "vote_ciphertext (VoteString s) = Inr s"
| "vote_ciphertext (VoteObject c h) =
     (if truthy c then Inr (the c)
      else if truthy h then Inr (the h)
      else Inl InvalidVoteStructure)"

fun addEncrypted_loop :: "int \<Rightarrow> int \<Rightarrow> voteRef list \<Rightarrow> error + int" where
  "addEncrypted_loop nsq result [] = Inr result"
| "addEncrypted_loop nsq result (vote # votes) =
     bindE (vote_ciphertext vote) (\<lambda>ctext.
     bindE (StringToBigInt ctext) (\<lambda>c.
       if nsq = 0 then Inl RangeError
       else addEncrypted_loop nsq ((result * c) smod nsq) votes))"

definition addEncrypted :: "voteRef list \<Rightarrow> publicKey option \<Rightarrow> error + string" where
  "addEncrypted encryptedVotes pubKey =
     (case pubKey of
        None \<Rightarrow> Inl PublicKeyRequiredForAddition
      | Some key \<Rightarrow>
          bindE (addEncrypted_loop (pk_nsq key) 1 encryptedVotes) (\<lambda>result.
            Inr (toString result)))"

text \<open>The arithmetic shared by \<open>decrypt\<close> and \<open>performThresholdDecryption\<close>.\<close>

definition decrypt_with :: "int \<Rightarrow> int \<Rightarrow> int \<Rightarrow> int \<Rightarrow> int \<Rightarrow> error + number" where
  "decrypt_with c lambda mu n nsq =
     bindE (modPow c lambda nsq) (\<lambda>cLambda.
     bindE (L cLambda n) (\<lambda>l.
       let m = (l * mu) smod n in Inr (Number m)))"

definition decrypt :: "string \<Rightarrow> privateKey option \<Rightarrow> error + number" where
  "decrypt ctext privKey =
     (case privKey of
        None \<Rightarrow> Inl PrivateKeyRequired
      | Some key \<Rightarrow>
          bindE (StringToBigInt ctext) (\<lambda>c.
            decrypt_with c (sk_lambda key) (sk_mu key) (sk_n key) (sk_nsq key)))"

subsection \<open>Secret sharing\<close>

definition bigint_rem :: "int \<Rightarrow> int \<Rightarrow> error + int" where
  "bigint_rem a b = (if b = 0 then Inl RangeError else Inr (a smod b))"

definition generateRandomBigInt :: "rng \<Rightarrow> int \<Rightarrow> nat \<Rightarrow> (error + int) \<times> nat" where
  "generateRandomBigInt R maxv k =
     (let (buffer, k') = randomBytes R (byte_length maxv) k;
          random = bytes_to_bigint buffer
      in (bigint_rem random maxv, k'))"

text \<open>The loop pushing \<open>k - 1\<close> random coefficients.\<close>

fun random_coefficients :: "rng \<Rightarrow> int \<Rightarrow> nat \<Rightarrow> nat \<Rightarrow> (error + int list) \<times> nat" where
  "random_coefficients R modulus 0 k = (Inr [], k)"
| "random_coefficients R modulus (Suc cnt) k =
     (case generateRandomBigInt R modulus k of
        (Inl e, k') \<Rightarrow> (Inl e, k')
      | (Inr a, k') \<Rightarrow>
          (case random_coefficients R modulus cnt k' of
             (Inl e, k'') \<Rightarrow> (Inl e, k'')
           | (Inr as, k'') \<Rightarrow> (Inr (a # as), k'')))"

text \<open>
  The inner loop of \<open>generateSecretShares\<close>, over the coefficients \<open>coefficients[j]\<close>
  for \<open>j < k\<close>: \<open>y = (y + (coefficients[j] * xPower) % modulus) % modulus\<close> and
  \<open>xPower = (xPower * BigInt(x)) % modulus\<close>.
\<close>

fun evaluate_polynomial :: "int \<Rightarrow> int \<Rightarrow> int \<Rightarrow> int \<Rightarrow> int list \<Rightarrow> error + int" where
  "evaluate_polynomial modulus x y xPower [] = Inr y"
| "evaluate_polynomial modulus x y xPower (c # cs) =
     bindE (bigint_rem (c * xPower) modulus) (\<lambda>t.
     bindE (bigint_rem (y + t) modulus) (\<lambda>y'.
     bindE (bigint_rem (xPower * x) modulus) (\<lambda>xPower'.
       evaluate_polynomial modulus x y' xPower' cs)))"

fun share_loop :: "int \<Rightarrow> int list \<Rightarrow> nat list \<Rightarrow> error + keyShare list" where
  "share_loop modulus coefficients [] = Inr []"
| "share_loop modulus coefficients (x # xs) =
     bindE (evaluate_polynomial modulus (int x) 0 1 coefficients) (\<lambda>y.
     bindE (share_loop modulus coefficients xs) (\<lambda>shares.
       Inr (\<lparr>share_id = int x, share_value = y\<rparr> # shares)))"

definition generateSecretShares ::
    "rng \<Rightarrow> int \<Rightarrow> nat \<Rightarrow> nat \<Rightarrow> int \<Rightarrow> nat \<Rightarrow> (error + keyShare list) \<times> nat" where
  "generateSecretShares R secret n k modulus kr =
     (case random_coefficients R modulus (k - 1) kr of
        (Inl e, kr') \<Rightarrow> (Inl e, kr')
      | (Inr as, kr') \<Rightarrow>
          (share_loop modulus (take k (secret # as)) [1..<Suc n], kr'))"

text \<open>
  \<open>reconstructSecret\<close>: for the share at index \<open>i\<close>, the inner loop runs over the
  indices \<open>j \<noteq> i\<close> and keeps every intermediate product reduced with \<open>%\<close>, whose
  result has the sign of the dividend.
\<close>

fun lagrange_loop ::
    "int \<Rightarrow> keyShare list \<Rightarrow> nat \<Rightarrow> int \<Rightarrow> int \<Rightarrow> nat list \<Rightarrow> error + int \<times> int" where
  "lagrange_loop modulus shares i numerator denominator [] = Inr (numerator, denominator)"
| "lagrange_loop modulus shares i numerator denominator (j # js) =
     (if i \<noteq> j then
        bindE (bigint_rem (numerator * (- share_id (shares ! j))) modulus) (\<lambda>numerator'.
        bindE (bigint_rem (denominator * (share_id (shares ! i) - share_id (shares ! j))) modulus)
          (\<lambda>denominator'.
            lagrange_loop modulus shares i numerator' denominator' js))
      else lagrange_loop modulus shares i numerator denominator js)"

fun reconstruct_loop :: "int \<Rightarrow> keyShare list \<Rightarrow> int \<Rightarrow> nat list \<Rightarrow> error + int" where
  "reconstruct_loop modulus shares secret [] = Inr secret"
| "reconstruct_loop modulus shares secret (i # is) =
     bindE (lagrange_loop modulus shares i 1 1 [0..<length shares]) (\<lambda>(numerator, denominator).
     bindE (modInv denominator modulus) (\<lambda>denominatorInv.
     bindE (bigint_rem (numerator * denominatorInv) modulus) (\<lambda>lagrangeCoeff.
     bindE (bigint_rem (share_value (shares ! i) * lagrangeCoeff) modulus) (\<lambda>t.
     bindE (bigint_rem (secret + t) modulus) (\<lambda>secret'.
       reconstruct_loop modulus shares secret' is)))))"

definition reconstructSecret :: "keyShare list \<Rightarrow> int \<Rightarrow> error + int" where
  "reconstructSecret shares modulus =
     bindE (reconstruct_loop modulus shares 0 [0..<length shares]) (\<lambda>secret.
     bindE (bigint_rem secret modulus) (\<lambda>s.
       bigint_rem (s + modulus) modulus))"

subsection \<open>Threshold decryption\<close>

definition performThresholdDecryption :: "engine \<Rightarrow> string \<Rightarrow> nat \<Rightarrow> error + number" where
  "performThresholdDecryption this ctext threshold =
     (case privateKeyShares this of
        None \<Rightarrow> Inl SharesNotAvailable
      | Some ks \<Rightarrow>
          (case ks_shares ks of
             None \<Rightarrow> Inl SharesNotAvailable
           | Some shares \<Rightarrow>
               bindE (StringToBigInt ctext) (\<lambda>c.
                 let activeShares = take threshold shares
                 in if length activeShares < threshold
                    then Inl (InsufficientShares threshold (length activeShares))
                    else
                      bindE (reconstructSecret activeShares (ks_n ks)) (\<lambda>reconstructedLambda.
                        decrypt_with c reconstructedLambda (ks_mu ks) (ks_n ks) (ks_nsq ks)))))"

definition shares_available :: "engine \<Rightarrow> nat \<Rightarrow> bool" where
  "shares_available this threshold =
     (case privateKeyShares this of
        None \<Rightarrow> False
      | Some ks \<Rightarrow>
          (case ks_shares ks of
             None \<Rightarrow> False
           | Some shares \<Rightarrow> length shares \<ge> threshold))"

definition thresholdDecrypt :: "engine \<Rightarrow> string \<Rightarrow> nat \<Rightarrow> error + number" where
  "thresholdDecrypt this ctext threshold =
     (if shares_available this threshold then performThresholdDecryption this ctext threshold
      else if privateKey this \<noteq> None then decrypt ctext (privateKey this)
      else Inl NoValidKeys)"

subsection \<open>Key generation\<close>

text \<open>
  \<open>isProbablyPrime(candidate, 15)\<close> of \<open>bigint-crypto-utils\<close> is a parameter of the
  model: a predicate on candidates.
\<close>

definition primeAttempts :: nat where
  "primeAttempts = 2000"

definition prime_candidate :: "nat \<Rightarrow> byte list \<Rightarrow> int" where
  "prime_candidate bits buffer =
     (let candidate = bytes_to_bigint buffer;
          bitMask = push_bit bits 1 - 1;
          candidate = candidate AND bitMask;
          candidate = candidate OR (if bits = 0 then 0 else push_bit (bits - 1) 1);
          candidate = candidate OR 1
      in candidate)"

definition small_prime_divides :: "int \<Rightarrow> bool" where
  "small_prime_divides candidate =
     (candidate smod 3 = 0 \<or> candidate smod 5 = 0 \<or> candidate smod 7 = 0 \<or>
      candidate smod 11 = 0 \<or> candidate smod 13 = 0 \<or> candidate smod 17 = 0)"

function generatePrime_loop ::
    "(int \<Rightarrow> bool) \<Rightarrow> rng \<Rightarrow> nat \<Rightarrow> nat \<Rightarrow> nat \<Rightarrow> (error + int) \<times> nat" where
  "generatePrime_loop isProbablyPrime R bits attempts k =
     (if attempts < primeAttempts then
        let (buffer, k') = randomBytes R ((bits + 7) div 8) k;
            candidate = prime_candidate bits buffer
        in if small_prime_divides candidate
           then generatePrime_loop isProbablyPrime R bits (attempts + 1) k'
           else if isProbablyPrime candidate then (Inr candidate, k')
           else generatePrime_loop isProbablyPrime R bits (attempts + 1) k'
      else (Inl (PrimeFailed bits primeAttempts), k))"
  by pat_completeness auto
termination
  by (relation "measure (\<lambda>(isProbablyPrime, R, bits, attempts, k). primeAttempts - attempts)")
     (auto simp: randomBytes_def)

declare generatePrime_loop.simps [simp del]

definition generatePrime :: "(int \<Rightarrow> bool) \<Rightarrow> rng \<Rightarrow> nat \<Rightarrow> nat \<Rightarrow> (error + int) \<times> nat" where
  "generatePrime isProbablyPrime R bits k = generatePrime_loop isProbablyPrime R bits 0 k"

record generatedKeys =
  gk_publicKey :: publicKey
  gk_privateKey :: privateKey
  gk_privateKeyShares :: keyShares
  gk_thresholdN :: nat
  gk_thresholdK :: nat

text \<open>The body of \<open>generateKeys\<close> after the two primes have been awaited.\<close>

definition keys_from_primes ::
    "rng \<Rightarrow> int \<Rightarrow> int \<Rightarrow> nat \<Rightarrow> (error + generatedKeys) \<times> nat" where
  "keys_from_primes R p q k =
     (let n = p * q in
      case lcm_js (p - 1) (q - 1) of
        Inl e \<Rightarrow> (Inl e, k)
      | Inr lambda \<Rightarrow>
          let g = n + 1; nsq = n * n in
          (case bindE (modPow g lambda nsq) (\<lambda>gLambda.
                bindE (L gLambda n) (\<lambda>l. modInv l n)) of
             Inl e \<Rightarrow> (Inl e, k)
           | Inr mu \<Rightarrow>
               let thresholdN = 5; thresholdK = 3 in
               (case generateSecretShares R lambda thresholdN thresholdK n k of
                  (Inl e, k') \<Rightarrow> (Inl e, k')
                | (Inr shares, k') \<Rightarrow>
                    (Inr \<lparr>gk_publicKey = \<lparr>pk_n = n, pk_g = g, pk_nsq = nsq\<rparr>,
                          gk_privateKey =
                            \<lparr>sk_lambda = lambda, sk_mu = mu, sk_n = n, sk_nsq = nsq\<rparr>,
                          gk_privateKeyShares =
                            \<lparr>ks_shares = Some shares, ks_mu = mu, ks_n = n, ks_nsq = nsq,
                             ks_thresholdN = thresholdN, ks_thresholdK = thresholdK\<rparr>,
                          gk_thresholdN = thresholdN, gk_thresholdK = thresholdK\<rparr>, k'))))"

text \<open>
  \<open>generateKeys\<close>: both primes have \<open>keySize / 2\<close> bits. For an odd \<open>keySize\<close> this
  number of bits is no integer: the first call of \<open>generatePrime\<close> draws its buffer
  (of \<open>\<lceil>keySize / 16\<rceil>\<close> bytes) and \<open>BigInt(bits)\<close> throws a RangeError. The engine keeps
  the keys, the shares and the threshold parameters.
\<close>

definition install_keys :: "engine \<Rightarrow> generatedKeys \<Rightarrow> engine" where
  "install_keys this keys =
     this\<lparr>publicKey := Some (gk_publicKey keys),
          privateKey := Some (gk_privateKey keys),
          privateKeyShares := Some (gk_privateKeyShares keys),
          thresholdParams := Some \<lparr>tp_n = gk_thresholdN keys, tp_k = gk_thresholdK keys\<rparr>\<rparr>"

definition generateKeys ::
    "(int \<Rightarrow> bool) \<Rightarrow> rng \<Rightarrow> engine \<Rightarrow> nat \<Rightarrow> (error + generatedKeys) \<times> engine \<times> nat" where
  "generateKeys isProbablyPrime R this k =
     (if odd (keySize this) then
        (Inl RangeError, this, snd (randomBytes R ((keySize this + 15) div 16) k))
      else
      case generatePrime isProbablyPrime R (keySize this div 2) k of
        (Inl e, k1) \<Rightarrow> (Inl e, this, k1)
      | (Inr p, k1) \<Rightarrow>
          (case generatePrime isProbablyPrime R (keySize this div 2) k1 of
             (Inl e, k2) \<Rightarrow> (Inl e, this, k2)
           | (Inr q, k2) \<Rightarrow>
               (case keys_from_primes R p q k2 of
                  (Inl e, k3) \<Rightarrow> (Inl e, this, k3)
                | (Inr keys, k3) \<Rightarrow> (Inr keys, install_keys this keys, k3))))"


section \<open>External cryptographic primitives\<close>

text \<open>
  SHA-256 (\<open>createHash('sha256').update(s).digest('hex')\<close> of \<open>node:crypto\<close>) and the
  curve secp256k1 (\<open>@noble/secp256k1\<close>) are libraries the source imports. They are
  parameters of the model: \<open>sha256\<close> maps a string to the hexadecimal digest, and a
  \<open>curve\<close> gives the order \<open>CURVE.n\<close>, \<open>Point.BASE.multiply\<close> (which throws unless the
  scalar lies strictly between 0 and the order), \<open>Point.fromHex\<close> (which throws on
  anything that is not an encoded point), \<open>toHex\<close>, point addition and the
  multiplication of an arbitrary point (\<open>None\<close> where the library throws or, in a
  table of values, where the table ends). Points are compared with \<open>equals\<close>, the
  equality of the point type.
\<close>

type_synonym sha256 = "string \<Rightarrow> string"

record 'p curve =
  curve_n :: int
  base_multiply :: "int \<Rightarrow> 'p option"
  fromHex :: "string \<Rightarrow> 'p option"
  toHex :: "'p \<Rightarrow> string"
  point_add :: "'p \<Rightarrow> 'p \<Rightarrow> 'p option"
  point_multiply :: "'p \<Rightarrow> int \<Rightarrow> 'p option"

text \<open>
  The clock \<open>Date.now()\<close> and the index \<open>Math.floor(Math.random() * m)\<close> are oracles
  beside \<open>randomBytes\<close>; one counter numbers all their calls.
\<close>

record world =
  w_bytes :: rng
  w_index :: "nat \<Rightarrow> nat \<Rightarrow> nat"
  w_now :: "nat \<Rightarrow> nat"

text \<open>\<open>buffer.toString('hex')\<close>: two lower-case digits for each byte.\<close>

definition hex_of_byte :: "byte \<Rightarrow> string" where
  "hex_of_byte b = [digit_chars ! (unat b div 16), digit_chars ! (unat b mod 16)]"

definition hex_of_bytes :: "byte list \<Rightarrow> string" where
  "hex_of_bytes bs = concat (map hex_of_byte bs)"

text \<open>
  \<open>BigInt('0x' + digest) % this.curve.CURVE.n\<close>, the scalar a string is hashed to.
\<close>

definition hash_to_scalar :: "'p curve \<Rightarrow> sha256 \<Rightarrow> string \<Rightarrow> error + int" where
  "hash_to_scalar C H input =
     bindE (StringToBigInt (''0x'' @ H input)) (\<lambda>h. bigint_rem h (curve_n C))"

section \<open>The zero-knowledge proof subsystem\<close>

text \<open>
  Class \<open>ZeroKnowledgeProof\<close>. A sigma proof carries \<open>candidateIndex\<close>, \<open>a\<close>, \<open>z\<close>,
  \<open>type\<close> and, when simulated, \<open>c\<close>.
\<close>

record sigmaProof =
  sg_candidateIndex :: nat
  sg_a :: string
  sg_c :: "string option"
  sg_z :: string
  sg_type :: string

record proofBundle =
  pb_proofs :: "sigmaProof list"
  pb_challenge :: string
  pb_timestamp :: nat

record verification =
  isValid :: bool
  reason :: "string option"

text \<open>String concatenation with a property that may be \<open>undefined\<close>.\<close>

definition plus_string :: "string \<Rightarrow> string option \<Rightarrow> string" where
  "plus_string s p = s @ (case p of None \<Rightarrow> ''undefined'' | Some t \<Rightarrow> t)"

text \<open>
  \<open>verifySigmaProof\<close>: any exception inside the \<open>try\<close> block gives \<open>false\<close>. The
  commitment is a parameter the function never reads.
\<close>

definition verifySigmaProof :: "'p curve \<Rightarrow> sigmaProof \<Rightarrow> 'c \<Rightarrow> bool" where
  "verifySigmaProof C sigma commitment =
     (case fromHex C (sg_a sigma) of
        None \<Rightarrow> False
      | Some a \<Rightarrow>
          if sg_type sigma = ''real'' then
            (case StringToBigInt (''0x'' @ sg_z sigma) of
               Inl e \<Rightarrow> False
             | Inr z \<Rightarrow>
                 (case base_multiply C z of
                    None \<Rightarrow> False
                  | Some gz \<Rightarrow> gz = a))
          else
            (case StringToBigInt (plus_string ''0x'' (sg_c sigma)) of
               Inl e \<Rightarrow> False
             | Inr c \<Rightarrow>
                 (case StringToBigInt (''0x'' @ sg_z sigma) of
                    Inl e \<Rightarrow> False
                  | Inr z \<Rightarrow> True)))"

definition generateChallenge :: "sha256 \<Rightarrow> sigmaProof list \<Rightarrow> string" where
  "generateChallenge H proofs = H (concat (map sg_a proofs))"

fun verify_loop :: "'p curve \<Rightarrow> 'c \<Rightarrow> sigmaProof list \<Rightarrow> verification option" where
  "verify_loop C commitment [] = None"
| "verify_loop C commitment (sigma # rest) =
     (if \<not> verifySigmaProof C sigma commitment then
        Some \<lparr>isValid = False,
              reason = Some (''Invalid sigma proof for candidate '' @
                             toString (int (sg_candidateIndex sigma)))\<rparr>
      else verify_loop C commitment rest)"

definition verifyProof ::
    "'p curve \<Rightarrow> sha256 \<Rightarrow> proofBundle \<Rightarrow> 'c \<Rightarrow> 'd list \<Rightarrow> verification" where
  "verifyProof C H bundle commitment candidates =
     (if length (pb_proofs bundle) \<noteq> length candidates then
        \<lparr>isValid = False, reason = Some ''Invalid proof count''\<rparr>
      else
        (case verify_loop C commitment (pb_proofs bundle) of
           Some failure \<Rightarrow> failure
         | None \<Rightarrow>
             if generateChallenge H (pb_proofs bundle) \<noteq> pb_challenge bundle then
               \<lparr>isValid = False, reason = Some ''Invalid challenge''\<rparr>
             else \<lparr>isValid = True, reason = None\<rparr>))"

subsection \<open>Nullifiers\<close>

record nullifierProof =
  np_commitment :: string
  np_response :: string
  np_randomnessUsed :: string

record nullifierData =
  nd_nullifier :: string
  nd_proof :: nullifierProof

text \<open>
  The template literals. A value placed in a template literal is converted to a string;
  the identifiers and the randomness are modelled by these strings, the time stamp is
  printed in decimal.
\<close>

definition nullifier_input :: "string \<Rightarrow> string \<Rightarrow> string \<Rightarrow> nat \<Rightarrow> string" where
  "nullifier_input userId electionId rand now =
     userId @ '':'' @ electionId @ '':'' @ rand @ '':'' @ toString (int now)"

definition verification_input :: "string \<Rightarrow> string \<Rightarrow> string \<Rightarrow> string" where
  "verification_input userId electionId randomnessUsed =
     userId @ '':'' @ electionId @ '':'' @ randomnessUsed"

text \<open>
  \<open>generateNullifierProof\<close>. \<open>BigInt('0x' + r.toString('hex'))\<close> is the big-endian
  value of the 32 random bytes.
\<close>

definition generateNullifierProof ::
    "'p curve \<Rightarrow> sha256 \<Rightarrow> rng \<Rightarrow> int \<Rightarrow> string \<Rightarrow> nat \<Rightarrow> (error + nullifierProof) \<times> nat" where
  "generateNullifierProof C H R scalar rand k =
     (let (r, k') = randomBytes R 32 k in
      (bindE (bigint_rem (bytes_to_bigint r) (curve_n C)) (\<lambda>rScalar.
       bindE (hash_to_scalar C H rand) (\<lambda>randomnessScalar.
         Inr \<lparr>np_commitment = toStringRadix 16 rScalar,
              np_response = toStringRadix 16 (rScalar + scalar * randomnessScalar),
              np_randomnessUsed = rand\<rparr>)), k'))"

text \<open>
  \<open>generateNullifier\<close> reads the clock: \<open>now\<close> is the value of \<open>Date.now()\<close>.
\<close>

definition generateNullifier ::
    "'p curve \<Rightarrow> sha256 \<Rightarrow> rng \<Rightarrow> nat \<Rightarrow> string \<Rightarrow> string \<Rightarrow> string \<Rightarrow> nat
       \<Rightarrow> (error + nullifierData) \<times> nat" where
  "generateNullifier C H R now userId electionId rand k =
     (case hash_to_scalar C H (nullifier_input userId electionId rand now) of
        Inl e \<Rightarrow> (Inl e, k)
      | Inr scalar \<Rightarrow>
          (case base_multiply C scalar of
             None \<Rightarrow> (Inl TypeError, k)
           | Some nullifier \<Rightarrow>
               (case generateNullifierProof C H R scalar rand k of
                  (Inl e, k') \<Rightarrow> (Inl e, k')
                | (Inr prf, k') \<Rightarrow>
                    (Inr \<lparr>nd_nullifier = toHex C nullifier, nd_proof = prf\<rparr>, k'))))"

text \<open>\<open>verifyNullifierProof\<close>: an exception inside the \<open>try\<close> block gives \<open>false\<close>.\<close>

definition verifyNullifierProof ::
    "'p curve \<Rightarrow> sha256 \<Rightarrow> nullifierData \<Rightarrow> string \<Rightarrow> string \<Rightarrow> bool" where
  "verifyNullifierProof C H nullifierData userId electionId =
     (let input = verification_input userId electionId
                    (np_randomnessUsed (nd_proof nullifierData))
      in case hash_to_scalar C H input of
           Inl e \<Rightarrow> False
         | Inr expectedScalar \<Rightarrow>
             (case base_multiply C expectedScalar of
                None \<Rightarrow> False
              | Some expectedNullifier \<Rightarrow>
                  toHex C expectedNullifier = nd_nullifier nullifierData))"

section \<open>The mixnet\<close>

text \<open>
  Class \<open>Mixnets\<close>. A vote object has the properties \<open>ciphertext\<close>, \<open>rerandomized\<close> and
  \<open>timestamp\<close>, each of which may be absent, and further properties (\<open>mv_rest\<close>) that
  the object spread copies. \<open>JSON.stringify\<close> of the object a commitment hashes is a
  parameter: it maps the original votes, the shuffled votes and the permutation (absent
  in \<open>verifyShuffleProof\<close>) to a string.
\<close>

record 'a mixVote =
  mv_ciphertext :: "string option"
  mv_rerandomized :: "bool option"
  mv_timestamp :: "nat option"
  mv_rest :: 'a

record shuffleProof =
  sp_round :: nat
  sp_commitment :: string
  sp_timestamp :: nat
  sp_nodeId :: string
  sp_verified :: bool

type_synonym 'a stringify = "'a mixVote list \<Rightarrow> 'a mixVote list \<Rightarrow> nat list option \<Rightarrow> string"

record shuffleVerification =
  sv_isValid :: bool
  sv_reason :: "string option"
  sv_commitment :: "string option"
  sv_verified :: "bool option"

record 'a shuffleResult =
  sr_shuffledVotes :: "'a mixVote list"
  sr_proof :: shuffleProof
  sr_permutation :: "nat list"

record 'a mixnetResult =
  mr_shuffledVotes :: "'a mixVote list"
  mr_proofs :: "shuffleProof list"
  mr_mixNodes :: nat
  mr_rounds :: nat

record mixnets =
  mixNodes :: "(string \<times> string) list"
  shuffleRounds :: nat

text \<open>The Fisher-Yates loop, \<open>i\<close> running from \<open>length - 1\<close> down to 1.\<close>

fun fisher_yates :: "world \<Rightarrow> nat list \<Rightarrow> nat \<Rightarrow> nat \<Rightarrow> nat list \<times> nat" where
  "fisher_yates W permutation 0 k = (permutation, k)"
| "fisher_yates W permutation (Suc i') k =
     (let i = Suc i';
          j = w_index W k (i + 1);
          permutation' = permutation[i := permutation ! j, j := permutation ! i]
      in fisher_yates W permutation' i' (Suc k))"

definition generatePermutation :: "world \<Rightarrow> nat \<Rightarrow> nat \<Rightarrow> nat list \<times> nat" where
  "generatePermutation W len k = fisher_yates W [0..<len] (len - 1) k"

definition multiplyWithRandomness :: "sha256 \<Rightarrow> string option \<Rightarrow> string \<Rightarrow> string" where
  "multiplyWithRandomness H ctext rand = H (plus_string [] ctext @ rand)"

definition rerandomize :: "sha256 \<Rightarrow> world \<Rightarrow> 'a mixVote \<Rightarrow> nat \<Rightarrow> 'a mixVote \<times> nat" where
  "rerandomize H W encVote k =
     (let (bytes, k1) = randomBytes (w_bytes W) 32 k;
          randomFactor = hex_of_bytes bytes
      in (encVote\<lparr>mv_ciphertext :=
                     Some (multiplyWithRandomness H (mv_ciphertext encVote) randomFactor),
                   mv_rerandomized := Some True,
                   mv_timestamp := Some (w_now W k1)\<rparr>, Suc k1))"

fun rerandomize_all :: "sha256 \<Rightarrow> world \<Rightarrow> 'a mixVote list \<Rightarrow> nat \<Rightarrow> 'a mixVote list \<times> nat" where
  "rerandomize_all H W [] k = ([], k)"
| "rerandomize_all H W (v # vs) k =
     (let (v', k1) = rerandomize H W v k;
          (vs', k2) = rerandomize_all H W vs k1
      in (v' # vs', k2))"

definition generateShuffleProof ::
    "sha256 \<Rightarrow> 'a stringify \<Rightarrow> world \<Rightarrow> 'a mixVote list \<Rightarrow> 'a mixVote list \<Rightarrow> nat list \<Rightarrow> nat
       \<Rightarrow> nat \<Rightarrow> shuffleProof \<times> nat" where
  "generateShuffleProof H J W originalVotes shuffledVotes permutation round k =
     (\<lparr>sp_round = round,
       sp_commitment = H (J originalVotes shuffledVotes (Some permutation)),
       sp_timestamp = w_now W k,
       sp_nodeId = ''mix-node-'' @ toString (int round),
       sp_verified = True\<rparr>, Suc k)"

definition performShuffle ::
    "sha256 \<Rightarrow> 'a stringify \<Rightarrow> world \<Rightarrow> 'a mixVote list \<Rightarrow> nat \<Rightarrow> nat \<Rightarrow> 'a shuffleResult \<times> nat" where
  "performShuffle H J W votes round k =
     (let (permutation, k1) = generatePermutation W (length votes) k;
          shuffledVotes = map (\<lambda>i. votes ! (permutation ! i)) [0..<length votes];
          (rerandomizedVotes, k2) = rerandomize_all H W shuffledVotes k1;
          (prf, k3) = generateShuffleProof H J W votes rerandomizedVotes permutation round k2
      in (\<lparr>sr_shuffledVotes = rerandomizedVotes, sr_proof = prf,
            sr_permutation = permutation\<rparr>, k3))"

fun shuffle_rounds ::
    "sha256 \<Rightarrow> 'a stringify \<Rightarrow> world \<Rightarrow> 'a mixVote list \<Rightarrow> shuffleProof list \<Rightarrow> nat \<Rightarrow> nat \<Rightarrow> nat
       \<Rightarrow> ('a mixVote list \<times> shuffleProof list) \<times> nat" where
  "shuffle_rounds H J W currentVotes shuffleProofs round 0 k = ((currentVotes, shuffleProofs), k)"
| "shuffle_rounds H J W currentVotes shuffleProofs round (Suc remaining) k =
     (let (shuffleResult, k1) = performShuffle H J W currentVotes round k
      in shuffle_rounds H J W (sr_shuffledVotes shuffleResult)
           (shuffleProofs @ [sr_proof shuffleResult]) (Suc round) remaining k1)"

definition shuffleVotes ::
    "sha256 \<Rightarrow> 'a stringify \<Rightarrow> world \<Rightarrow> mixnets \<Rightarrow> 'a mixVote list \<Rightarrow> nat \<Rightarrow> 'a mixnetResult \<times> nat" where
  "shuffleVotes H J W this encryptedVotes k =
     (let ((currentVotes, shuffleProofs), k') =
            shuffle_rounds H J W encryptedVotes [] 0 (shuffleRounds this) k
      in (\<lparr>mr_shuffledVotes = currentVotes, mr_proofs = shuffleProofs,
            mr_mixNodes = length (mixNodes this), mr_rounds = shuffleRounds this\<rparr>, k'))"

text \<open>
  \<open>verifyShuffleProof\<close>. The expected commitment is computed and not used again.
\<close>

definition verifyShuffleProof ::
    "sha256 \<Rightarrow> 'a stringify \<Rightarrow> shuffleProof \<Rightarrow> 'a mixVote list \<Rightarrow> 'a mixVote list
       \<Rightarrow> shuffleVerification" where
  "verifyShuffleProof H J prf originalVotes shuffledVotes =
     (if length originalVotes \<noteq> length shuffledVotes then
        \<lparr>sv_isValid = False, sv_reason = Some ''Vote count mismatch'',
         sv_commitment = None, sv_verified = None\<rparr>
      else
        let expectedCommitment = H (J originalVotes shuffledVotes None)
        in \<lparr>sv_isValid = True, sv_reason = None,
             sv_commitment = Some (sp_commitment prf), sv_verified = Some (sp_verified prf)\<rparr>)"

section \<open>Example data\<close>

text \<open>
  A key pair from the 5-bit primes 19 and 23 (\<open>keySize = 10\<close>), as \<open>keys_from_primes\<close>
  computes it, and an engine that holds the private key and two of its shares.
\<close>

definition example_publicKey :: publicKey where
  "example_publicKey = \<lparr>pk_n = 437, pk_g = 438, pk_nsq = 190969\<rparr>"

definition example_privateKey :: privateKey where
  "example_privateKey = \<lparr>sk_lambda = 198, sk_mu = 373, sk_n = 437, sk_nsq = 190969\<rparr>"

definition two_share_engine :: engine where
  "two_share_engine =
     \<lparr>keySize = 10,
      publicKey = Some example_publicKey,
      privateKey = Some example_privateKey,
      privateKeyShares =
        Some \<lparr>ks_shares = Some [\<lparr>share_id = 1, share_value = 63\<rparr>,
                                \<lparr>share_id = 2, share_value = 125\<rparr>],
              ks_mu = 373, ks_n = 437, ks_nsq = 190969,
              ks_thresholdN = 5, ks_thresholdK = 3\<rparr>,
      thresholdParams = Some \<lparr>tp_n = 5, tp_k = 3\<rparr>\<rparr>"

text \<open>
  Values of the library functions at the inputs the examples use: SHA-256 digests,
  and points of secp256k1 in their compressed encoding (a point is represented by this
  encoding): the generator \<open>G\<close>, \<open>2G\<close> and two nullifier points.
\<close>

definition secp256k1_n :: int where
  "secp256k1_n =
     115792089237316195423570985008687907852837564279074904382605163141518161494337"

definition G_hex :: string where
  "G_hex = ''0279be667ef9dcbbac55a06295ce870b07029bfcdb2dce28d959f2815b16f81798''"

definition G2_hex :: string where
  "G2_hex = ''02c6047f9441ed7d6d3045406e95c07cd85c778e4b8cef3ca7abac09b95c709ee5''"

definition scalar_t0 :: int where
  "scalar_t0 = 16339858159614860830578702111892170869471135964204378001352384349092405958907"

definition scalar_t1 :: int where
  "scalar_t1 = 82791226158875519796680853704543389550223403191483830694252424724820716301775"

definition scalar_v :: int where
  "scalar_v = 47665035459943331020752493843291540731089787356177696297845062009386693298648"

definition nullifier_t0 :: string where
  "nullifier_t0 = ''0319d2214a83b34e59ed1882b8abe2c83b4bb188c1b607b35b12c279dc99618770''"

definition nullifier_t1 :: string where
  "nullifier_t1 = ''02106657b95edde39b8ec085cc60e811cd5e3014bdfb3f8efb31ce5c945e77b5c1''"

definition nullifier_v :: string where
  "nullifier_v = ''039ec6108a0597ed9459c8f3d79fd187242b980b07de5a7a30c5e25b50e44279e8''"

definition secp256k1_table :: "string curve" where
  "secp256k1_table =
     \<lparr>curve_n = secp256k1_n,
      base_multiply = (\<lambda>s.
        if s = 1 then Some G_hex
        else if s = 2 then Some G2_hex
        else if s = scalar_t0 then Some nullifier_t0
        else if s = scalar_t1 then Some nullifier_t1
        else if s = scalar_v then Some nullifier_v
        else None),
      fromHex = (\<lambda>h. if h = G_hex \<or> h = G2_hex then Some h else None),
      toHex = (\<lambda>p. p),
      point_add = (\<lambda>p q. if p = G_hex \<and> q = G_hex then Some G2_hex else None),
      point_multiply = (\<lambda>p s. if s = 1 then Some p else None)\<rparr>"

definition zero_factor :: string where
  "zero_factor = ''0000000000000000000000000000000000000000000000000000000000000000''"

definition sha256_table :: sha256 where
  "sha256_table s =
     (if s = [] then
        ''e3b0c44298fc1c149afbf4c8996fb92427ae41e4649b934ca495991b7852b855''
      else if s = ''21'' then
        ''6f4b6612125fb3a0daecd2799dfd6c9c299424fd920f9b308110a2c1fbd8f443''
      else if s = ''1:e:21'' then
        ''6961743b01ef5a0ce3885967e7eb6486e546d74ebf902acf97719c7d574c09d8''
      else if s = ''1:e:21:1700000000000'' then
        ''2420082fdeba9bac6a621506f9f88a6a31a4fd9e2088109b66383efa34b9d8fb''
      else if s = ''1:e:21:1700000000001'' then
        ''b70a2c64ea1f90aaad475e87eab0a2be443e1be5028f766c463c460924462dcf''
      else if s = G_hex @ G_hex then
        ''ae9ba8d066df8a5ee21e6f2dcad9f685039049f480195ea66f5a7bde8776880b''
      else if s = ''181881'' @ zero_factor then
        ''5b90fef330ef4380bd130cae3888d3107f8fded29c5b511d7d880e79fdf32219''
      else if s = ''5b90fef330ef4380bd130cae3888d3107f8fded29c5b511d7d880e79fdf32219''
                  @ zero_factor then
        ''db54cff251f6f9d8506762ff44da22bb77d7b725c18803243452cb0c53e854a6''
      else if s = ''db54cff251f6f9d8506762ff44da22bb77d7b725c18803243452cb0c53e854a6''
                  @ zero_factor then
        ''9dd1b3152f90e31e945eb02472642132fe0ad8b06d0eb2c29938794cfa007fbe''
      else if s = ''142988'' @ zero_factor then
        ''d2a50ff027509ca30e8601be178d13a0fdbe790645a6d0be61c535a683a431d3''
      else if s = ''d2a50ff027509ca30e8601be178d13a0fdbe790645a6d0be61c535a683a431d3''
                  @ zero_factor then
        ''d904962428e2cd5350810e1b6a274ca0eb65c93be558b694639bbef0250b9582''
      else if s = ''d904962428e2cd5350810e1b6a274ca0eb65c93be558b694639bbef0250b9582''
                  @ zero_factor then
        ''66b2f38f61dbc9c1f0339e946e324af3e61eae84f3858c1188e0069207ad527b''
      else [])"

text \<open>
  Modelled from the spec: the verification equation of a simulated branch,
  \<open>g^z = a \<cdot> C^c\<close> (section 9), for the commitment \<open>C\<close> given in its encoding. The
  source has no function that computes it.
\<close>

definition or_relation :: "'p curve \<Rightarrow> string \<Rightarrow> sigmaProof \<Rightarrow> bool" where
  "or_relation C commitment sigma =
     (case (fromHex C (sg_a sigma), fromHex C commitment,
            StringToBigInt (plus_string ''0x'' (sg_c sigma)),
            StringToBigInt (''0x'' @ sg_z sigma)) of
        (Some a, Some cm, Inr c, Inr z) \<Rightarrow>
          (case (base_multiply C z, point_multiply C cm c) of
             (Some gz, Some cc) \<Rightarrow> point_add C a cc = Some gz
           | _ \<Rightarrow> False)
      | _ \<Rightarrow> False)"

definition example_bundle :: proofBundle where
  "example_bundle =
     \<lparr>pb_proofs =
        [\<lparr>sg_candidateIndex = 0, sg_a = G_hex, sg_c = None, sg_z = ''1'',
          sg_type = ''real''\<rparr>,
         \<lparr>sg_candidateIndex = 1, sg_a = G_hex, sg_c = Some ''1'', sg_z = ''1'',
          sg_type = ''simulated''\<rparr>],
      pb_challenge = ''ae9ba8d066df8a5ee21e6f2dcad9f685039049f480195ea66f5a7bde8776880b'',
      pb_timestamp = 1700000000000\<rparr>"

definition zero_bytes :: rng where
  "zero_bytes = (\<lambda>k i. 0)"

text \<open>A source of random bytes: byte \<open>i\<close> of draw \<open>k\<close> is \<open>37 k + 11 i + 5\<close> (modulo 256).\<close>

definition example_rng :: rng where
  "example_rng = (\<lambda>k i. word_of_nat (37 * k + 11 * i + 5))"

definition example_world :: world where
  "example_world = \<lparr>w_bytes = zero_bytes, w_index = (\<lambda>k m. 0), w_now = (\<lambda>k. 1700000000000)\<rparr>"

definition no_stringify :: "'a stringify" where
  "no_stringify = (\<lambda>originalVotes shuffledVotes permutation. [])"

definition example_mixnets :: mixnets where
  "example_mixnets = \<lparr>mixNodes = [], shuffleRounds = 3\<rparr>"

definition example_vote :: "unit mixVote" where
  "example_vote =
     \<lparr>mv_ciphertext = Some ''181881'', mv_rerandomized = None, mv_timestamp = None,
      mv_rest = ()\<rparr>"

text \<open>
  Two ballots under the example key: \<open>181881\<close> encrypts 2 and \<open>142988\<close> encrypts 1 (both
  with \<open>r = 21\<close>). The further property of a ballot is its number.
\<close>

definition example_votes :: "nat mixVote list" where
  "example_votes =
     [\<lparr>mv_ciphertext = Some ''181881'', mv_rerandomized = None, mv_timestamp = None,
       mv_rest = 1\<rparr>,
      \<lparr>mv_ciphertext = Some ''142988'', mv_rerandomized = None, mv_timestamp = None,
       mv_rest = 2\<rparr>]"

section \<open>What a shuffle round computes\<close>

text \<open>
  The corrected statement of the shuffle, to be compared with \<open>performShuffle\<close>. A round
  makes of a vote the vote \<open>digest_vote\<close>: its ciphertext is the SHA-256 digest of the
  previous ciphertext followed by the 64 hexadecimal digits of the 32 bytes of draw \<open>k\<close>,
  it is marked as re-randomized and stamped with the time read next; the other properties
  are kept. A round (\<open>digest_round\<close>) puts at position \<open>i\<close> the vote made of the vote at
  position \<open>p ! i\<close>, for a permutation \<open>p\<close> of the positions, with the draws \<open>k\<close>, \<open>k + 2\<close>,
  \<open>k + 4\<close>, \<dots> in this order. \<open>hex_letters\<close> are the hexadecimal digits that are neither
  decimal digits nor the \<open>b\<close> of a binary literal.
\<close>

definition digest_vote :: "sha256 \<Rightarrow> world \<Rightarrow> nat \<Rightarrow> 'a mixVote \<Rightarrow> 'a mixVote" where
  "digest_vote H W k v =
     v\<lparr>mv_ciphertext :=
         Some (H (plus_string [] (mv_ciphertext v) @ hex_of_bytes (map (w_bytes W k) [0..<32]))),
       mv_rerandomized := Some True,
       mv_timestamp := Some (w_now W (Suc k))\<rparr>"

definition digest_round :: "sha256 \<Rightarrow> world \<Rightarrow> 'a mixVote list \<Rightarrow> 'a mixVote list \<Rightarrow> bool" where
  "digest_round H W votes out \<longleftrightarrow>
     (\<exists>p k. mset p = mset [0..<length votes] \<and>
        out = map (\<lambda>i. digest_vote H W (k + 2 * i) (votes ! (p ! i))) [0..<length votes])"

definition hex_digits :: "char set" where
  "hex_digits = set ''0123456789abcdef''"

definition hex_letters :: "char set" where
  "hex_letters = set ''acdef''"

section \<open>Polynomials\<close>

text \<open>
  The mathematics behind secret sharing: the value of a polynomial given by its
  coefficients \<open>a\<^sub>0, a\<^sub>1, \<dots>\<close>, the functions that are polynomials of degree below \<open>k\<close>, and
  the product \<open>\<Prod>\<^sub>j\<^sub>\<noteq>\<^sub>i (x - x\<^sub>j)\<close> over the points other than the \<open>i\<close>-th.
\<close>

fun polyval :: "int list \<Rightarrow> int \<Rightarrow> int" where
  "polyval [] x = 0"
| "polyval (c # cs) x = c + x * polyval cs x"

inductive polyfun :: "nat \<Rightarrow> (int \<Rightarrow> int) \<Rightarrow> bool" where
  zero: "polyfun 0 (\<lambda>x. 0)"
| step: "polyfun k q \<Longrightarrow> polyfun (Suc k) (\<lambda>x. c + x * q x)"

definition others :: "nat \<Rightarrow> nat \<Rightarrow> nat list" where
  "others k i = filter (\<lambda>j. i \<noteq> j) [0..<k]"

definition basis :: "int list \<Rightarrow> nat \<Rightarrow> int \<Rightarrow> int" where
  "basis xs i x = prod_list (map (\<lambda>j. x - xs ! j) (others (length xs) i))"

section \<open>Properties of the arithmetic\<close>

lemmas string_eval = StringToBigInt_def trim_def is_space_def parse_nat_def digit_val_def
  digit_chars_def lower_char_def toString_def toStringRadix_def digits_of.simps

lemma bindE_Inr [simp]: "bindE (Inr v) f = f v"
  by (simp add: bindE_def)

lemma bindE_Inl [simp]: "bindE (Inl e) f = Inl e"
  by (simp add: bindE_def)

lemma bindE_cong [cong]: "m = m' \<Longrightarrow> bindE m f = bindE m' f"
  by simp

lemma bindE_eq_Inr: "bindE m f = Inr y \<longleftrightarrow> (\<exists>v. m = Inr v \<and> f v = Inr y)"
  by (cases m) simp_all

lemma toZn_pos:
  assumes "0 < n"
  shows "toZn a n = Inr (a mod n)"
proof -
  have bounds: "0 \<le> a mod n" "a mod n < n"
    using assms by simp_all
  have "a smod n = a mod n \<or> a smod n = a mod n - n"
    by (auto simp add: signed_modulo_int_eq_modulo_int)
  then consider "a smod n = a mod n" | "a smod n = a mod n - n" "a smod n < 0"
    using bounds by linarith
  then show ?thesis
  proof cases
    case 1
    then have "\<not> a smod n < 0" using bounds by linarith
    with 1 assms show ?thesis by (simp add: toZn_def Let_def)
  next
    case 2
    with assms show ?thesis by (simp add: toZn_def Let_def)
  qed
qed

lemma modPow_loop_correct:
  "0 < n \<Longrightarrow> 0 \<le> r \<Longrightarrow> r < n \<Longrightarrow> 0 \<le> b \<Longrightarrow> 0 \<le> e \<Longrightarrow>
     modPow_loop r b e n = (r * b ^ nat e) mod n"
proof (induction r b e n rule: modPow_loop.induct)
  case (1 r b e n)
  show ?case
  proof (cases "0 < e")
    case False
    with "1.prems" show ?thesis by (subst modPow_loop.simps) simp
  next
    case True
    define r' where "r' = (if e smod 2 = 1 then (r * b) smod n else r)"
    define b' where "b' = b ^ 2 smod n"
    have e2: "e sdiv 2 = e div 2" "e smod 2 = e mod 2"
      using True by (simp_all add: signed_divide_int_def smod_mod_positive sgn_if)
    have rb: "(r * b) smod n = (r * b) mod n"
      using "1.prems" by (simp add: smod_mod_positive)
    have b'_eq: "b' = b ^ 2 mod n"
      using "1.prems" by (simp add: b'_def smod_mod_positive)
    have r'_bounds: "0 \<le> r'" "r' < n"
      using "1.prems" by (auto simp: r'_def rb)
    have b'_nonneg: "0 \<le> b'"
      using "1.prems" by (simp add: b'_eq)
    have step: "modPow_loop r b e n = modPow_loop r' b' (e sdiv 2) n"
      using True by (subst modPow_loop.simps) (simp add: r'_def b'_def)
    have IH: "modPow_loop r' b' (e sdiv 2) n = (r' * b' ^ nat (e sdiv 2)) mod n"
      using "1.IH" [OF True] "1.prems" r'_bounds b'_nonneg True
      by (simp add: r'_def b'_def e2)
    have pw: "(b' ^ nat (e div 2)) mod n = b ^ (2 * nat (e div 2)) mod n"
      by (simp add: b'_eq power_mod power_mult)
    have e_split: "nat e = 2 * nat (e div 2) + nat (e mod 2)"
    proof -
      have "int (2 * nat (e div 2) + nat (e mod 2)) = e"
        using True by simp
      then show ?thesis by (metis nat_int)
    qed
    have "(r' * b' ^ nat (e div 2)) mod n = (r' * (b ^ (2 * nat (e div 2)) mod n)) mod n"
      by (metis pw mod_mult_right_eq)
    also have "\<dots> = (r' * b ^ (2 * nat (e div 2))) mod n"
      by (simp add: mod_mult_right_eq)
    also have "\<dots> = (r * b ^ nat e) mod n"
    proof (cases "e mod 2 = 1")
      case True
      then have "r' = (r * b) mod n" by (simp add: r'_def e2 rb)
      moreover have "nat e = Suc (2 * nat (e div 2))" using e_split True by simp
      ultimately show ?thesis
        by (simp add: mod_mult_left_eq mult.assoc)
    next
      case False
      then have "e mod 2 = 0" by presburger
      then have "r' = r" "nat e = 2 * nat (e div 2)"
        using e_split by (simp_all add: r'_def e2)
      then show ?thesis by simp
    qed
    finally show ?thesis using step IH by (simp add: e2)
  qed
qed

lemma modPow_nonneg_exp:
  assumes "0 < n" "0 \<le> e"
  shows "modPow b e n = Inr (b ^ nat e mod n)"
proof (cases "n = 1")
  case True
  then show ?thesis by (simp add: modPow_def)
next
  case False
  with assms have n: "1 < n" by simp
  have "modPow_loop 1 (b mod n) e n = (1 * (b mod n) ^ nat e) mod n"
    using n assms by (intro modPow_loop_correct) simp_all
  then show ?thesis
    using n assms by (simp add: modPow_def toZn_pos power_mod)
qed

lemma gcd_loop_correct: "0 \<le> a \<Longrightarrow> 0 \<le> b \<Longrightarrow> gcd_loop a b = gcd a b"
proof (induction a b rule: gcd_loop.induct)
  case (1 a b)
  show ?case
  proof (cases "b = 0")
    case True
    with "1.prems" show ?thesis by (subst gcd_loop.simps) simp
  next
    case False
    with "1.prems" have b: "0 < b" by simp
    have m: "a smod b = a mod b"
      using "1.prems" by (simp add: smod_mod_positive)
    have "gcd_loop a b = gcd_loop b (a smod b)"
      using False by (subst gcd_loop.simps) simp
    also have "\<dots> = gcd b (a mod b)"
      using "1.IH" [OF False] "1.prems" b by (simp add: m)
    also have "\<dots> = gcd a b"
      by (metis gcd_red_int)
    finally show ?thesis .
  qed
qed

lemma bytes_to_bigint_nonneg_aux:
  "0 \<le> acc \<Longrightarrow> 0 \<le> foldl (\<lambda>r b. push_bit 8 r OR uint (b::byte)) acc buffer"
  by (induction buffer arbitrary: acc) simp_all

lemma bytes_to_bigint_nonneg: "0 \<le> bytes_to_bigint buffer"
  by (simp add: bytes_to_bigint_def bytes_to_bigint_nonneg_aux)

section \<open>The modular inverse\<close>

lemma smod_congruent: "(a smod m) mod m = a mod m" for a m :: int
  by (simp add: signed_modulo_int_eq_modulo_int)

lemma eGcd_loop_correct:
  "0 \<le> a \<Longrightarrow> 0 \<le> b \<Longrightarrow> a = u * a0 + v * b0 \<Longrightarrow> b = x * a0 + y * b0 \<Longrightarrow>
   eGcd_loop a b x y u v = (g, x', y') \<Longrightarrow> g = gcd a b \<and> g = x' * a0 + y' * b0"
proof (induction a b x y u v rule: eGcd_loop.induct)
  case (1 a b x y u v)
  show ?case
  proof (cases "a = 0")
    case True
    with "1.prems"(5) have "g = b" "x' = x" "y' = y"
      by (subst (asm) eGcd_loop.simps, simp)+
    with True "1.prems"(2,4) show ?thesis by simp
  next
    case False
    with "1.prems" have a: "0 < a" by simp
    define q where "q = b sdiv a"
    define r where "r = b smod a"
    have q: "q = b div a"
      using a "1.prems"(2) by (simp add: q_def signed_divide_int_def sgn_if)
    have r: "r = b mod a"
      using a "1.prems"(2) by (simp add: r_def smod_mod_positive)
    have r_nonneg: "0 \<le> r" using a by (simp add: r)
    have inv_r: "r = (x - u * q) * a0 + (y - v * q) * b0"
    proof -
      have "r = b - q * a" by (simp add: r q minus_div_mult_eq_mod)
      also have "\<dots> = (x * a0 + y * b0) - q * (u * a0 + v * b0)"
        using "1.prems"(3,4) by simp
      finally show ?thesis by (simp add: algebra_simps)
    qed
    have step: "eGcd_loop a b x y u v = eGcd_loop r a u v (x - u * q) (y - v * q)"
      using False by (subst eGcd_loop.simps) (simp add: Let_def q_def r_def)
    from "1.IH" [OF False q_def r_def refl refl r_nonneg "1.prems"(1) inv_r "1.prems"(3)]
      "1.prems"(5) step
    have "g = gcd r a \<and> g = x' * a0 + y' * b0" by simp
    moreover have "gcd r a = gcd a b"
      by (simp add: r gcd.commute gcd_red_int [symmetric])
    ultimately show ?thesis by simp
  qed
qed

lemma modInv_correct:
  assumes n: "1 < n" and c: "coprime a n"
  shows "\<exists>x. modInv a n = Inr x \<and> 0 \<le> x \<and> x < n \<and> (a * x) mod n = 1"
proof -
  define a' where "a' = a mod n"
  have z: "toZn a n = Inr a'"
    using n by (simp add: toZn_pos a'_def)
  have c': "coprime a' n"
    using c n by (simp add: a'_def)
  have "a' \<noteq> 0"
  proof
    assume "a' = 0"
    with c' have "is_unit n" by simp
    with n show False by simp
  qed
  moreover have "0 \<le> a'" using n by (simp add: a'_def)
  ultimately have pos: "0 < a'" by simp
  obtain g x y where e: "eGcd_loop a' n 0 1 1 0 = (g, x, y)"
    by (cases "eGcd_loop a' n 0 1 1 0")
  from eGcd_loop_correct [of a' n 1 a' 0 n 0 1 g x y] pos n e
  have g: "g = gcd a' n" and b: "g = x * a' + y * n"
    by simp_all
  from g c' have g1: "g = 1" by simp
  have "(a * (x mod n)) mod n = (a' * x) mod n"
    unfolding a'_def by (metis mod_mult_left_eq mod_mult_right_eq)
  also have "\<dots> = (x * a' + y * n) mod n"
    by (simp add: mult.commute)
  also have "\<dots> = 1"
    using b g1 n by simp
  finally have inv: "(a * (x mod n)) mod n = 1" .
  have "modInv a n = Inr (x mod n)"
    using z pos n e g1 by (simp add: modInv_def eGcd_def toZn_pos)
  with inv n show ?thesis by simp
qed

lemma modInv_one: "modInv a 1 = Inl RangeError"
  by (simp add: modInv_def toZn_def eGcd_def signed_modulo_int_def Let_def)

section \<open>Decimal strings\<close>

lemma digit_char_decimal: "k < 10 \<Longrightarrow> digit_chars ! k \<in> decimal_digits"
proof -
  assume "k < 10"
  then have "k \<in> {0, 1, 2, 3, 4, 5, 6, 7, 8, 9}" by auto
  then show ?thesis
    by (elim insertE emptyE; simp add: digit_chars_def decimal_digits_def)
qed

lemma digit_val_digit_char: "k < 10 \<Longrightarrow> digit_val 10 (digit_chars ! k) = Some k"
proof -
  assume "k < 10"
  then have "k \<in> {0, 1, 2, 3, 4, 5, 6, 7, 8, 9}" by auto
  then show ?thesis
    by (elim insertE emptyE; simp add: digit_chars_def digit_val_def lower_char_def)
qed

lemma digits_of_decimal:
  "set (digits_of 10 k acc) \<subseteq> decimal_digits \<union> set acc"
proof (induction "10::nat" k acc rule: digits_of.induct)
  case (1 k acc)
  show ?case
  proof (cases "k < 10")
    case True
    then show ?thesis
      using digit_char_decimal [of k] by (subst digits_of.simps) auto
  next
    case False
    have "k mod 10 < 10" by simp
    then have "digit_chars ! (k mod 10) \<in> decimal_digits"
      by (rule digit_char_decimal)
    with "1.hyps" False show ?thesis
      by (subst digits_of.simps) auto
  qed
qed

lemma digits_of_nonempty: "digits_of 10 k acc \<noteq> []"
proof (induction "10::nat" k acc rule: digits_of.induct)
  case (1 k acc)
  then show ?case
    by (subst digits_of.simps) auto
qed

lemma parse_digits_of:
  "parse_digits 10 0 (digits_of 10 k acc) = parse_digits 10 k acc"
proof (induction "10::nat" k acc rule: digits_of.induct)
  case (1 k acc)
  show ?case
  proof (cases "k < 10")
    case True
    then show ?thesis
      by (subst digits_of.simps) (simp add: digit_val_digit_char)
  next
    case False
    have d: "digit_val 10 (digit_chars ! (k mod 10)) = Some (k mod 10)"
      by (rule digit_val_digit_char) simp
    from False "1.hyps"
    have "parse_digits 10 0 (digits_of 10 k acc)
        = parse_digits 10 (k div 10) (digit_chars ! (k mod 10) # acc)"
      by (subst digits_of.simps) simp
    also have "\<dots> = parse_digits 10 k acc"
      by (simp add: d)
    finally show ?thesis .
  qed
qed

lemma parse_nat_digits_of: "parse_nat 10 (digits_of 10 k []) = Some k"
  by (simp add: parse_nat_def digits_of_nonempty parse_digits_of)

lemma decimal_not_space: "c \<in> decimal_digits \<Longrightarrow> \<not> is_space c"
  by (auto simp: decimal_digits_def is_space_def)

lemma decimal_lower: "c \<in> decimal_digits \<Longrightarrow> lower_char c = c"
  by (auto simp: decimal_digits_def lower_char_def)

lemma trim_id:
  assumes "s \<noteq> []" "\<not> is_space (hd s)" "\<not> is_space (last s)"
  shows "trim s = s"
proof -
  have "dropWhile is_space s = s"
    using assms by (simp add: dropWhile_eq_self_iff)
  moreover have "dropWhile is_space (rev s) = rev s"
    using assms by (simp add: dropWhile_eq_self_iff hd_rev)
  ultimately show ?thesis
    by (simp add: trim_def)
qed

lemma no_prefix:
  assumes "set t \<subseteq> insert CHR ''-'' decimal_digits"
    and that: "c \<notin> insert CHR ''-'' decimal_digits"
  shows "take 2 (map lower_char t) \<noteq> [CHR ''0'', c]"
proof
  assume eq: "take 2 (map lower_char t) = [CHR ''0'', c]"
  have low: "lower_char x = x" if "x \<in> set t" for x
    using that assms decimal_lower by (auto simp: lower_char_def)
  then have "map lower_char t = t"
    by (simp add: map_idI)
  with eq have "take 2 t = [CHR ''0'', c]" by simp
  then have "c \<in> set (take 2 t)" by simp
  then have "c \<in> set t" by (rule in_set_takeD)
  with assms that show False by auto
qed

lemma StringToBigInt_toString: "StringToBigInt (toString i) = Inr i"
proof (cases "i < 0")
  case False
  define s where "s = digits_of 10 (nat i) []"
  have s: "toString i = s"
    using False by (simp add: toString_def toStringRadix_def s_def)
  have sub: "set s \<subseteq> decimal_digits"
    using digits_of_decimal [of "nat i" "[]"] by (simp add: s_def)
  have ne: "s \<noteq> []" by (simp add: s_def digits_of_nonempty)
  then have hd: "hd s \<in> decimal_digits" and last: "last s \<in> decimal_digits"
    using sub by (auto simp: subset_iff)
  have trim: "trim s = s"
    using ne hd last by (intro trim_id) (simp_all add: decimal_not_space)
  have sub': "set s \<subseteq> insert CHR ''-'' decimal_digits"
    using sub by auto
  have pre: "take 2 (map lower_char s) \<noteq> ''0x''" "take 2 (map lower_char s) \<noteq> ''0o''"
    "take 2 (map lower_char s) \<noteq> ''0b''"
    using no_prefix [OF sub'] by (simp_all add: decimal_digits_def)
  have sign: "hd s \<noteq> CHR ''-''" "hd s \<noteq> CHR ''+''"
    using hd by (auto simp: decimal_digits_def)
  show ?thesis
    using False ne pre sign
    by (simp add: s StringToBigInt_def trim Let_def parse_nat_digits_of [of "nat i", folded s_def])
next
  case True
  define d where "d = digits_of 10 (nat (- i)) []"
  define s where "s = CHR ''-'' # d"
  have s: "toString i = s"
    using True by (simp add: toString_def toStringRadix_def s_def d_def)
  have subd: "set d \<subseteq> decimal_digits"
    using digits_of_decimal [of "nat (- i)" "[]"] by (simp add: d_def)
  have ned: "d \<noteq> []" by (simp add: d_def digits_of_nonempty)
  have last: "last s = last d"
    using ned by (simp add: s_def)
  have lastd: "last d \<in> decimal_digits"
    using ned subd by (auto simp: subset_iff)
  have trim: "trim s = s"
  proof (rule trim_id)
    show "s \<noteq> []" by (simp add: s_def)
    show "\<not> is_space (hd s)" by (simp add: s_def is_space_def)
    show "\<not> is_space (last s)" using lastd by (simp add: last decimal_not_space)
  qed
  have sub': "set s \<subseteq> insert CHR ''-'' decimal_digits"
    using subd by (auto simp: s_def)
  have pre: "take 2 (map lower_char s) \<noteq> ''0x''" "take 2 (map lower_char s) \<noteq> ''0o''"
    "take 2 (map lower_char s) \<noteq> ''0b''"
    using no_prefix [OF sub'] by (simp_all add: decimal_digits_def)
  have "parse_nat 10 d = Some (nat (- i))"
    by (simp add: d_def parse_nat_digits_of)
  then show ?thesis
    using True pre
    by (simp add: s StringToBigInt_def trim Let_def) (simp add: s_def)
qed

lemma toString_inj:
  assumes "toString a = toString b"
  shows "a = b"
proof -
  have "(Inr a :: error + int) = StringToBigInt (toString a)"
    by (simp only: StringToBigInt_toString)
  also have "\<dots> = StringToBigInt (toString b)"
    by (simp only: assms)
  also have "\<dots> = Inr b"
    by (simp only: StringToBigInt_toString)
  finally show ?thesis by simp
qed

section \<open>Properties of encryption\<close>

lemma encrypt_loop_result:
  "encrypt_loop R n attempts k = (Inr (r, att), k') \<Longrightarrow>
     2 < n \<and> 2 \<le> r \<and> r \<le> n - 1 \<and> (gcd_loop r n = 1 \<or> maxAttempts \<le> att)"
proof (induction R n attempts k rule: encrypt_loop.induct)
  case (1 R n attempts k)
  from "1.prems" have a: "\<not> attempts > maxAttempts"
    by (subst (asm) encrypt_loop.simps) (auto split: if_splits)
  obtain buffer k1 where rb: "randomBytes R (byte_length n) k = (buffer, k1)"
    by (cases "randomBytes R (byte_length n) k")
  from "1.prems" a rb have n: "2 < n"
    by (subst (asm) encrypt_loop.simps) (auto simp: Let_def split: if_splits)
  define r1 where "r1 = (bytes_to_bigint buffer smod (n - 2)) + 2"
  have r1_bounds: "2 \<le> r1" "r1 \<le> n - 1"
    using n bytes_to_bigint_nonneg [of buffer]
          smod_int_compares(1,2) [of "bytes_to_bigint buffer" "n - 2"]
    by (auto simp: r1_def)
  show ?case
  proof (cases "gcd_loop r1 n \<noteq> 1 \<and> attempts + 1 < maxAttempts")
    case True
    with "1.prems" a rb n
    have "encrypt_loop R n (attempts + 1) k1 = (Inr (r, att), k')"
      by (subst (asm) encrypt_loop.simps) (simp add: Let_def r1_def)
    with "1.IH" [OF a refl rb [symmetric] refl] n True show ?thesis
      by (simp add: r1_def)
  next
    case False
    with "1.prems" a rb n have "r = r1 \<and> att = attempts + 1"
      by (subst (asm) encrypt_loop.simps) (auto simp: Let_def r1_def)
    with False r1_bounds n show ?thesis by auto
  qed
qed

text \<open>
  Claim C9. For every vote and every source of randomness, \<open>encrypt\<close> with a public
  key whose modulus is at most 100 fails with the key-too-small error naming \<open>n\<close>, and
  the count of random buffers drawn is unchanged: the guard stands before the loop that
  draws \<open>r\<close> and before any modular exponentiation.
\<close>

theorem encrypt_rejects_small_modulus:
  "pk_n key \<le> 100 \<Longrightarrow> encrypt R vote (Some key) k = (Inl (KeyTooSmall (pk_n key)), k)"
  by (simp add: encrypt_def Let_def)

theorem encrypt_rejects_small_modulus_witness:
  "pk_n \<lparr>pk_n = 100, pk_g = 101, pk_nsq = 10000\<rparr> \<le> 100 \<and>
   encrypt (\<lambda>k i. 0) 1 (Some \<lparr>pk_n = 100, pk_g = 101, pk_nsq = 10000\<rparr>) 5
     = (Inl (KeyTooSmall 100), 5)"
  using encrypt_rejects_small_modulus
    [of "\<lparr>pk_n = 100, pk_g = 101, pk_nsq = 10000\<rparr>" "\<lambda>k i. 0" 1 5]
  by simp

text \<open>
  Claim C8. When \<open>encrypt\<close> returns a result for a vote \<open>v \<ge> 0\<close> under a public key
  \<open>{n, g, n\<^sup>2}\<close>, then \<open>n > 100\<close>, the returned randomness is the decimal string of an
  \<open>r\<close> with \<open>2 \<le> r \<le> n - 1\<close> and \<open>gcd(r, n) = 1\<close>, and the returned ciphertext is the
  decimal string of \<open>g^v \<cdot> r^n mod n\<^sup>2\<close>.
\<close>

theorem encrypt_success:
  assumes enc: "encrypt R vote (Some key) k = (Inr ev, k')"
    and nsq: "pk_nsq key = pk_n key * pk_n key"
    and vote: "0 \<le> vote"
  shows "100 < pk_n key \<and>
    (\<exists>r. randomness ev = toString r \<and> 2 \<le> r \<and> r \<le> pk_n key - 1 \<and> gcd r (pk_n key) = 1 \<and>
       ciphertext ev = toString ((pk_g key ^ nat vote * r ^ nat (pk_n key)) mod (pk_n key)\<^sup>2))"
proof -
  let ?n = "pk_n key"
  from enc have n: "100 < ?n"
    by (auto simp: encrypt_def Let_def split: if_splits)
  obtain res k1 where loop: "encrypt_loop R ?n 0 k = (res, k1)"
    by (cases "encrypt_loop R ?n 0 k")
  from enc n loop obtain r att where res: "res = Inr (r, att)"
    by (cases res) (auto simp: encrypt_def Let_def)
  from enc n loop res have att: "att < maxAttempts"
    by (auto simp: encrypt_def Let_def split: if_splits)
  from encrypt_loop_result [OF loop [unfolded res]] att
  have r: "2 \<le> r" "r \<le> ?n - 1" "gcd_loop r ?n = 1"
    by auto
  have g: "gcd r ?n = 1"
    using r n gcd_loop_correct [of r ?n] by simp
  have nsq_pos: "0 < pk_nsq key"
    using n nsq by simp
  have gm: "modPow (pk_g key) vote (pk_nsq key) = Inr (pk_g key ^ nat vote mod pk_nsq key)"
    using nsq_pos vote by (rule modPow_nonneg_exp)
  have rn: "modPow r ?n (pk_nsq key) = Inr (r ^ nat ?n mod pk_nsq key)"
    using nsq_pos n by (intro modPow_nonneg_exp) simp_all
  have prod: "((pk_g key ^ nat vote mod pk_nsq key) * (r ^ nat ?n mod pk_nsq key)) smod pk_nsq key
      = (pk_g key ^ nat vote * r ^ nat ?n) mod pk_nsq key"
    using nsq_pos by (simp add: smod_mod_positive mod_mult_eq)
  from enc n loop res att gm rn prod
  have "ev = \<lparr>ciphertext = toString ((pk_g key ^ nat vote * r ^ nat ?n) mod pk_nsq key),
               randomness = toString r\<rparr>"
    by (simp add: encrypt_def Let_def)
  with r g n nsq show ?thesis
    by (auto simp: power2_eq_square)
qed

theorem encrypt_success_witness:
  "encrypt (\<lambda>k i. 17) 2 (Some \<lparr>pk_n = 437, pk_g = 438, pk_nsq = 190969\<rparr>) 0
     = (Inr \<lparr>ciphertext = ''181881'', randomness = ''21''\<rparr>, 1) \<and>
   (\<exists>r. ''21'' = toString r \<and> 2 \<le> r \<and> r \<le> 436 \<and> gcd r 437 = 1 \<and>
       ''181881'' = toString ((438 ^ 2 * r ^ 437) mod 437\<^sup>2))"
proof -
  have e: "encrypt (\<lambda>k i. 17) 2 (Some \<lparr>pk_n = 437, pk_g = 438, pk_nsq = 190969\<rparr>) 0
     = (Inr \<lparr>ciphertext = ''181881'', randomness = ''21''\<rparr>, 1)"
  proof -
    have "encrypt_loop (\<lambda>k i. 17) 437 0 0 = (Inr (21, 1), 1)"
      by code_simp
    moreover have "modPow_loop 1 438 2 190969 = 875" "modPow_loop 1 21 437 190969 = 104095"
      by code_simp+
    moreover have "toString 181881 = ''181881''" "toString 21 = ''21''"
      by (simp_all add: toString_def toStringRadix_def digits_of.simps digit_chars_def)
    ultimately show ?thesis
      by (simp add: encrypt_def maxAttempts_def modPow_def toZn_def)
  qed
  from encrypt_success [OF e] show ?thesis
    by (simp add: e)
qed

section \<open>Threshold decryption with too few shares\<close>

text \<open>
  Claim C3, as amended. With fewer than \<open>threshold\<close> shares in the engine,
  \<open>thresholdDecrypt\<close> returns what single-key \<open>decrypt\<close> returns when a private key is
  loaded, and fails with the error \<open>No valid decryption keys available\<close> otherwise. The
  error naming the need and the number at hand is raised by
  \<open>performThresholdDecryption\<close>, when it is called with a readable ciphertext and fewer
  shares than the threshold.
\<close>

theorem thresholdDecrypt_insufficient_shares:
  assumes "\<not> shares_available this threshold"
  shows "thresholdDecrypt this ctext threshold =
           (case privateKey this of
              Some key \<Rightarrow> decrypt ctext (Some key)
            | None \<Rightarrow> Inl NoValidKeys) \<and>
         (\<forall>ks shares c. privateKeyShares this = Some ks \<longrightarrow> ks_shares ks = Some shares \<longrightarrow>
            StringToBigInt ctext = Inr c \<longrightarrow>
              performThresholdDecryption this ctext threshold =
                Inl (InsufficientShares threshold (length shares)))"
proof (intro conjI allI impI)
  show "thresholdDecrypt this ctext threshold =
           (case privateKey this of
              Some key \<Rightarrow> decrypt ctext (Some key)
            | None \<Rightarrow> Inl NoValidKeys)"
    using assms by (simp add: thresholdDecrypt_def split: option.splits)
next
  fix ks shares c
  assume ks: "privateKeyShares this = Some ks" "ks_shares ks = Some shares"
    and c: "StringToBigInt ctext = Inr c"
  from assms ks have "length shares < threshold"
    by (simp add: shares_available_def)
  with ks c show "performThresholdDecryption this ctext threshold =
      Inl (InsufficientShares threshold (length shares))"
    by (simp add: performThresholdDecryption_def Let_def)
qed

lemma decrypt_example:
  "decrypt ''181881'' (Some \<lparr>sk_lambda = 198, sk_mu = 373, sk_n = 437, sk_nsq = 190969\<rparr>)
     = Inr (Finite 2)"
proof -
  have "StringToBigInt ''181881'' = Inr 181881"
    by (simp add: string_eval)
  moreover have "modPow_loop 1 181881 198 190969 = 173053"
    by code_simp
  ultimately show ?thesis
    by (simp add: decrypt_def decrypt_with_def modPow_def toZn_def L_def Number_def)
qed

theorem thresholdDecrypt_fallback_counterexample:
  "\<not> shares_available two_share_engine 3 \<and>
   thresholdDecrypt two_share_engine ''181881'' 3 = Inr (Finite 2)"
  by (simp add: two_share_engine_def example_privateKey_def example_publicKey_def
      shares_available_def thresholdDecrypt_def decrypt_example)

theorem thresholdDecrypt_insufficient_shares_witness:
  "\<not> shares_available two_share_engine 3 \<and>
   thresholdDecrypt two_share_engine ''181881'' 3 = Inr (Finite 2) \<and>
   performThresholdDecryption two_share_engine ''181881'' 3 = Inl (InsufficientShares 3 2)"
proof -
  have a: "\<not> shares_available two_share_engine 3"
    by (simp add: two_share_engine_def shares_available_def)
  have s: "StringToBigInt ''181881'' = Inr 181881"
    by (simp add: string_eval)
  from thresholdDecrypt_insufficient_shares [OF a, of "''181881''"] s show ?thesis
    by (simp add: two_share_engine_def shares_available_def example_privateKey_def
        decrypt_example)
qed

section \<open>Verification of proof bundles\<close>

lemma verify_loop_None_iff:
  "verify_loop C commitment proofs = None \<longleftrightarrow>
     (\<forall>sigma \<in> set proofs. verifySigmaProof C sigma commitment)"
  by (induction proofs) simp_all

lemma verify_loop_Some_invalid:
  "verify_loop C commitment proofs = Some failure \<Longrightarrow> \<not> isValid failure"
  by (induction proofs) (auto split: if_splits)

lemma verifySigmaProof_simulated:
  "sg_type sigma \<noteq> ''real'' \<Longrightarrow>
     verifySigmaProof C sigma commitment \<longleftrightarrow>
       fromHex C (sg_a sigma) \<noteq> None \<and>
       (\<exists>c. StringToBigInt (plus_string ''0x'' (sg_c sigma)) = Inr c) \<and>
       (\<exists>z. StringToBigInt (''0x'' @ sg_z sigma) = Inr z)"
  by (auto simp: verifySigmaProof_def split: option.splits sum.splits)

lemma verifySigmaProof_real:
  "sg_type sigma = ''real'' \<Longrightarrow>
     verifySigmaProof C sigma commitment \<longleftrightarrow>
       (\<exists>a z. fromHex C (sg_a sigma) = Some a \<and>
              StringToBigInt (''0x'' @ sg_z sigma) = Inr z \<and> base_multiply C z = Some a)"
  by (auto simp: verifySigmaProof_def split: option.splits sum.splits)

text \<open>
  Claim C6, as amended. \<open>verifyProof\<close> checks every real branch against \<open>g^z = a\<close>. A
  simulated branch (any branch whose type is not \<open>real\<close>) passes as soon as its \<open>a\<close>
  decodes to a curve point and its \<open>c\<close> and \<open>z\<close> read as hexadecimal integers: no
  relation among \<open>a\<close>, \<open>c\<close>, \<open>z\<close> and the commitment is checked. The bundle is valid
  exactly when it has one branch for each candidate, every branch passes its check and the
  challenge is the hash of the concatenated first messages.
\<close>

theorem verifyProof_checks:
  "isValid (verifyProof C H bundle commitment candidates) \<longleftrightarrow>
     length (pb_proofs bundle) = length candidates \<and>
     (\<forall>sigma \<in> set (pb_proofs bundle).
        if sg_type sigma = ''real'' then
          (\<exists>a z. fromHex C (sg_a sigma) = Some a \<and>
                 StringToBigInt (''0x'' @ sg_z sigma) = Inr z \<and> base_multiply C z = Some a)
        else
          fromHex C (sg_a sigma) \<noteq> None \<and>
          (\<exists>c. StringToBigInt (plus_string ''0x'' (sg_c sigma)) = Inr c) \<and>
          (\<exists>z. StringToBigInt (''0x'' @ sg_z sigma) = Inr z)) \<and>
     H (concat (map sg_a (pb_proofs bundle))) = pb_challenge bundle"
proof -
  have branch: "verifySigmaProof C sigma commitment \<longleftrightarrow>
        (if sg_type sigma = ''real'' then
          (\<exists>a z. fromHex C (sg_a sigma) = Some a \<and>
                 StringToBigInt (''0x'' @ sg_z sigma) = Inr z \<and> base_multiply C z = Some a)
        else
          fromHex C (sg_a sigma) \<noteq> None \<and>
          (\<exists>c. StringToBigInt (plus_string ''0x'' (sg_c sigma)) = Inr c) \<and>
          (\<exists>z. StringToBigInt (''0x'' @ sg_z sigma) = Inr z))" for sigma
    using verifySigmaProof_real [of sigma C commitment]
          verifySigmaProof_simulated [of sigma C commitment]
    by (cases "sg_type sigma = ''real''") simp_all
  show ?thesis
  proof (cases "verify_loop C commitment (pb_proofs bundle)")
    case None
    then have "\<forall>sigma \<in> set (pb_proofs bundle). verifySigmaProof C sigma commitment"
      by (simp add: verify_loop_None_iff)
    with None show ?thesis
      by (auto simp: verifyProof_def generateChallenge_def branch)
  next
    case (Some failure)
    then have "\<not> isValid failure"
      by (rule verify_loop_Some_invalid)
    moreover from Some
    have "\<not> (\<forall>sigma \<in> set (pb_proofs bundle). verifySigmaProof C sigma commitment)"
      using verify_loop_None_iff [of C commitment "pb_proofs bundle"] by simp
    ultimately show ?thesis
      using Some by (auto simp: verifyProof_def branch)
  qed
qed

lemma hex_one: "StringToBigInt ''0x1'' = Inr 1"
  by (simp add: string_eval index_of.simps)

lemma example_bundle_valid:
  "isValid (verifyProof secp256k1_table sha256_table example_bundle G_hex [''A'', ''B''])"
  by (simp add: verifyProof_def verifySigmaProof_def example_bundle_def secp256k1_table_def
      sha256_table_def generateChallenge_def plus_string_def hex_one G_hex_def)

theorem verifyProof_simulated_counterexample:
  "isValid (verifyProof secp256k1_table sha256_table example_bundle G_hex [''A'', ''B'']) \<and>
   pb_proofs example_bundle ! 1 =
     \<lparr>sg_candidateIndex = 1, sg_a = G_hex, sg_c = Some ''1'', sg_z = ''1'',
      sg_type = ''simulated''\<rparr> \<and>
   \<not> or_relation secp256k1_table G_hex (pb_proofs example_bundle ! 1)"
proof -
  have "G_hex \<noteq> G2_hex"
    by (simp add: G_hex_def G2_hex_def)
  then have "\<not> or_relation secp256k1_table G_hex (pb_proofs example_bundle ! 1)"
    by (simp add: or_relation_def example_bundle_def secp256k1_table_def plus_string_def
        hex_one)
  with example_bundle_valid show ?thesis
    by (simp add: example_bundle_def)
qed

theorem verifyProof_checks_witness:
  "isValid (verifyProof secp256k1_table sha256_table example_bundle G_hex [''A'', ''B'']) \<and>
   length (pb_proofs example_bundle) = 2 \<and>
   sha256_table (concat (map sg_a (pb_proofs example_bundle))) = pb_challenge example_bundle"
  using verifyProof_checks [of secp256k1_table sha256_table example_bundle G_hex "[''A'', ''B'']"]
    example_bundle_valid
  by simp

section \<open>Nullifiers\<close>

lemma hash_to_scalar_eq_Inr:
  "hash_to_scalar C H input = Inr s \<longleftrightarrow>
     (\<exists>h. StringToBigInt (''0x'' @ H input) = Inr h \<and> curve_n C \<noteq> 0 \<and> s = h smod curve_n C)"
  by (auto simp: hash_to_scalar_def bigint_rem_def bindE_eq_Inr)

text \<open>
  Claim C10. \<open>verifyNullifierProof\<close> returns \<open>true\<close> exactly when the nullifier is the
  encoding of \<open>g^s\<close>, for the scalar \<open>s\<close> obtained by hashing
  \<open>userId:electionId:randomnessUsed\<close> with SHA-256 and reducing the digest modulo the
  curve order. The result does not depend on the \<open>commitment\<close> and \<open>response\<close> of the
  companion proof, and the string hashed here is the one \<open>generateNullifier\<close> hashes
  without its final \<open>:timestamp\<close>.
\<close>

theorem verifyNullifierProof_iff:
  "(verifyNullifierProof C H nullifierData userId electionId \<longleftrightarrow>
      (\<exists>h p. StringToBigInt
                (''0x'' @ H (userId @ '':'' @ electionId @ '':'' @
                              np_randomnessUsed (nd_proof nullifierData))) = Inr h \<and>
             curve_n C \<noteq> 0 \<and>
             base_multiply C (h smod curve_n C) = Some p \<and>
             toHex C p = nd_nullifier nullifierData)) \<and>
   verifyNullifierProof C H
      (nullifierData\<lparr>nd_proof := (nd_proof nullifierData)
         \<lparr>np_commitment := commitment', np_response := response'\<rparr>\<rparr>) userId electionId
     = verifyNullifierProof C H nullifierData userId electionId \<and>
   nullifier_input userId electionId rand now
     = verification_input userId electionId rand @ '':'' @ toString (int now)"
proof (intro conjI)
  show "verifyNullifierProof C H nullifierData userId electionId \<longleftrightarrow>
      (\<exists>h p. StringToBigInt
                (''0x'' @ H (userId @ '':'' @ electionId @ '':'' @
                              np_randomnessUsed (nd_proof nullifierData))) = Inr h \<and>
             curve_n C \<noteq> 0 \<and>
             base_multiply C (h smod curve_n C) = Some p \<and>
             toHex C p = nd_nullifier nullifierData)"
  proof (cases "hash_to_scalar C H (verification_input userId electionId
                  (np_randomnessUsed (nd_proof nullifierData)))")
    case (Inl e)
    then have "\<not> verifyNullifierProof C H nullifierData userId electionId"
      by (simp add: verifyNullifierProof_def)
    moreover from Inl have "\<not> (\<exists>h. StringToBigInt
                (''0x'' @ H (userId @ '':'' @ electionId @ '':'' @
                              np_randomnessUsed (nd_proof nullifierData))) = Inr h \<and>
             curve_n C \<noteq> 0)"
      using hash_to_scalar_eq_Inr [of C H "verification_input userId electionId
                  (np_randomnessUsed (nd_proof nullifierData))"]
      by (auto simp: verification_input_def)
    ultimately show ?thesis by blast
  next
    case (Inr s)
    then obtain h where h: "StringToBigInt
                (''0x'' @ H (userId @ '':'' @ electionId @ '':'' @
                              np_randomnessUsed (nd_proof nullifierData))) = Inr h"
        "curve_n C \<noteq> 0" "s = h smod curve_n C"
      by (auto simp: hash_to_scalar_eq_Inr verification_input_def)
    from Inr have "verifyNullifierProof C H nullifierData userId electionId \<longleftrightarrow>
        (\<exists>p. base_multiply C s = Some p \<and> toHex C p = nd_nullifier nullifierData)"
      by (auto simp: verifyNullifierProof_def split: option.splits)
    with h show ?thesis by auto
  qed
next
  show "verifyNullifierProof C H
      (nullifierData\<lparr>nd_proof := (nd_proof nullifierData)
         \<lparr>np_commitment := commitment', np_response := response'\<rparr>\<rparr>) userId electionId
     = verifyNullifierProof C H nullifierData userId electionId"
    by (simp add: verifyNullifierProof_def split: sum.split option.split)
next
  show "nullifier_input userId electionId rand now
     = verification_input userId electionId rand @ '':'' @ toString (int now)"
    by (simp add: nullifier_input_def verification_input_def)
qed

lemma hex_digest_v:
  "StringToBigInt (''0x'' @ ''6961743b01ef5a0ce3885967e7eb6486e546d74ebf902acf97719c7d574c09d8'')
     = Inr 47665035459943331020752493843291540731089787356177696297845062009386693298648"
  by (simp add: string_eval)

theorem verifyNullifierProof_iff_witness:
  "verifyNullifierProof secp256k1_table sha256_table
     \<lparr>nd_nullifier = nullifier_v,
      nd_proof = \<lparr>np_commitment = ''0'', np_response = ''0'', np_randomnessUsed = ''21''\<rparr>\<rparr>
     ''1'' ''e'' \<and>
   (\<exists>h p. StringToBigInt (''0x'' @ sha256_table ''1:e:21'') = Inr h \<and>
          base_multiply secp256k1_table (h smod curve_n secp256k1_table) = Some p \<and>
          toHex secp256k1_table p = nullifier_v)"
proof -
  let ?nd = "\<lparr>nd_nullifier = nullifier_v,
      nd_proof = \<lparr>np_commitment = ''0'', np_response = ''0'', np_randomnessUsed = ''21''\<rparr>\<rparr>"
  have v: "verifyNullifierProof secp256k1_table sha256_table ?nd ''1'' ''e''"
    using hex_digest_v
    by (simp add: verifyNullifierProof_def verification_input_def hash_to_scalar_def
        sha256_table_def secp256k1_table_def bigint_rem_def secp256k1_n_def scalar_v_def
        scalar_t0_def scalar_t1_def)
  have "verifyNullifierProof secp256k1_table sha256_table ?nd ''1'' ''e'' \<longleftrightarrow>
      (\<exists>h p. StringToBigInt
                (''0x'' @ sha256_table (''1'' @ '':'' @ ''e'' @ '':'' @
                              np_randomnessUsed (nd_proof ?nd))) = Inr h \<and>
             curve_n secp256k1_table \<noteq> 0 \<and>
             base_multiply secp256k1_table (h smod curve_n secp256k1_table) = Some p \<and>
             toHex secp256k1_table p = nd_nullifier ?nd)"
    using verifyNullifierProof_iff [of secp256k1_table sha256_table ?nd "''1''" "''e''"]
    by (rule conjunct1)
  with v have "\<exists>h p. StringToBigInt
                (''0x'' @ sha256_table (''1'' @ '':'' @ ''e'' @ '':'' @
                              np_randomnessUsed (nd_proof ?nd))) = Inr h \<and>
             curve_n secp256k1_table \<noteq> 0 \<and>
             base_multiply secp256k1_table (h smod curve_n secp256k1_table) = Some p \<and>
             toHex secp256k1_table p = nd_nullifier ?nd"
    by (rule iffD1 [rotated])
  then have "\<exists>h p. StringToBigInt (''0x'' @ sha256_table ''1:e:21'') = Inr h \<and>
          base_multiply secp256k1_table (h smod curve_n secp256k1_table) = Some p \<and>
          toHex secp256k1_table p = nullifier_v"
    by auto
  with v show ?thesis by (rule conjI)
qed

lemma generateNullifierProof_error:
  "fst (generateNullifierProof C H R scalar rand k) = Inl e \<Longrightarrow>
   hash_to_scalar C H input = Inr s \<Longrightarrow>
     hash_to_scalar C H rand = Inl e"
proof -
  assume e: "fst (generateNullifierProof C H R scalar rand k) = Inl e"
    and s: "hash_to_scalar C H input = Inr s"
  from s have n: "curve_n C \<noteq> 0"
    by (auto simp: hash_to_scalar_eq_Inr)
  show ?thesis
  proof (cases "hash_to_scalar C H rand")
    case (Inl e')
    with e n show ?thesis
      by (simp add: generateNullifierProof_def randomBytes_def bigint_rem_def)
  next
    case (Inr rs)
    with e n show ?thesis
      by (simp add: generateNullifierProof_def randomBytes_def bigint_rem_def)
  qed
qed

lemma generateNullifier_nullifier:
  "map_sum id nd_nullifier (fst (generateNullifier C H R now userId electionId rand k)) =
     bindE (hash_to_scalar C H (nullifier_input userId electionId rand now)) (\<lambda>scalar.
       case base_multiply C scalar of
         None \<Rightarrow> Inl TypeError
       | Some p \<Rightarrow> bindE (hash_to_scalar C H rand) (\<lambda>randomnessScalar. Inr (toHex C p)))"
proof (cases "hash_to_scalar C H (nullifier_input userId electionId rand now)")
  case (Inl e)
  then show ?thesis by (simp add: generateNullifier_def)
next
  case (Inr scalar)
  note sc = Inr
  show ?thesis
  proof (cases "base_multiply C scalar")
    case None
    with sc show ?thesis by (simp add: generateNullifier_def)
  next
    case (Some p)
    obtain res k' where g: "generateNullifierProof C H R scalar rand k = (res, k')"
      by (cases "generateNullifierProof C H R scalar rand k")
    show ?thesis
    proof (cases res)
      case (Inl e)
      with g generateNullifierProof_error [of C H R scalar rand k e _ scalar] sc
      have "hash_to_scalar C H rand = Inl e" by simp
      with sc Some g Inl show ?thesis by (simp add: generateNullifier_def)
    next
      case (Inr nproof)
      with g have "\<exists>rs. hash_to_scalar C H rand = Inr rs"
        by (cases "hash_to_scalar C H rand")
           (auto simp: generateNullifierProof_def randomBytes_def bindE_eq_Inr)
      with sc Some g Inr show ?thesis by (auto simp: generateNullifier_def)
    qed
  qed
qed

text \<open>
  Claim C5, as amended. \<open>generateNullifier\<close> is deterministic in its three arguments
  and the value of \<open>Date.now()\<close> it reads: two calls with the same
  \<open>(userId, electionId, randomness)\<close> at the same time stamp give the same nullifier (or
  the same error), whatever random bytes the companion proof draws; calls at different
  time stamps hash different strings.
\<close>

theorem generateNullifier_deterministic_in_time:
  "map_sum id nd_nullifier (fst (generateNullifier C H R now userId electionId rand k)) =
   map_sum id nd_nullifier (fst (generateNullifier C H R' now userId electionId rand k')) \<and>
   (nullifier_input userId electionId rand now = nullifier_input userId electionId rand now'
      \<longleftrightarrow> now = now')"
proof
  show "map_sum id nd_nullifier (fst (generateNullifier C H R now userId electionId rand k)) =
   map_sum id nd_nullifier (fst (generateNullifier C H R' now userId electionId rand k'))"
    by (simp only: generateNullifier_nullifier)
next
  show "nullifier_input userId electionId rand now = nullifier_input userId electionId rand now'
      \<longleftrightarrow> now = now'"
    using toString_inj [of "int now" "int now'"]
    by (auto simp: nullifier_input_def)
qed

lemma hex_digests_t:
  "StringToBigInt (''0x'' @ ''2420082fdeba9bac6a621506f9f88a6a31a4fd9e2088109b66383efa34b9d8fb'')
     = Inr scalar_t0"
  "StringToBigInt (''0x'' @ ''b70a2c64ea1f90aaad475e87eab0a2be443e1be5028f766c463c460924462dcf'')
     = Inr scalar_t1"
  "StringToBigInt (''0x'' @ ''6f4b6612125fb3a0daecd2799dfd6c9c299424fd920f9b308110a2c1fbd8f443'')
     = Inr 50339944187942351215260199271802340824538591744877537036933672380566647403587"
  by (simp_all add: string_eval scalar_t0_def scalar_t1_def)

lemma time_stamps:
  "toString 1700000000000 = ''1700000000000''" "toString 1700000000001 = ''1700000000001''"
  by (simp_all add: string_eval)

lemma nullifier_at_t0:
  "map_sum id nd_nullifier
     (fst (generateNullifier secp256k1_table sha256_table zero_bytes 1700000000000
             ''1'' ''e'' ''21'' 0)) = Inr nullifier_t0"
  using hex_digests_t time_stamps
  by (simp add: generateNullifier_nullifier nullifier_input_def hash_to_scalar_def
      sha256_table_def bigint_rem_def secp256k1_table_def secp256k1_n_def scalar_t0_def)

lemma nullifier_at_t1:
  "map_sum id nd_nullifier
     (fst (generateNullifier secp256k1_table sha256_table zero_bytes 1700000000001
             ''1'' ''e'' ''21'' 0)) = Inr nullifier_t1"
  using hex_digests_t time_stamps
  by (simp add: generateNullifier_nullifier nullifier_input_def hash_to_scalar_def
      sha256_table_def bigint_rem_def secp256k1_table_def secp256k1_n_def scalar_t0_def
      scalar_t1_def)

theorem generateNullifier_time_counterexample:
  "map_sum id nd_nullifier
     (fst (generateNullifier secp256k1_table sha256_table zero_bytes 1700000000000
             ''1'' ''e'' ''21'' 0)) = Inr nullifier_t0 \<and>
   map_sum id nd_nullifier
     (fst (generateNullifier secp256k1_table sha256_table zero_bytes 1700000000001
             ''1'' ''e'' ''21'' 0)) = Inr nullifier_t1 \<and>
   nullifier_t0 \<noteq> nullifier_t1"
  using nullifier_at_t0 nullifier_at_t1
  by (simp add: nullifier_t0_def nullifier_t1_def)

theorem generateNullifier_deterministic_in_time_witness:
  "map_sum id nd_nullifier
     (fst (generateNullifier secp256k1_table sha256_table zero_bytes 1700000000000
             ''1'' ''e'' ''21'' 0)) =
   map_sum id nd_nullifier
     (fst (generateNullifier secp256k1_table sha256_table (\<lambda>k i. 255) 1700000000000
             ''1'' ''e'' ''21'' 7)) \<and>
   nullifier_input ''1'' ''e'' ''21'' 1700000000000
     \<noteq> nullifier_input ''1'' ''e'' ''21'' 1700000000001"
  using generateNullifier_deterministic_in_time
    [of secp256k1_table sha256_table zero_bytes 1700000000000 "''1''" "''e''" "''21''" 0
        "\<lambda>k i. 255" 7 1700000000001]
  by simp

section \<open>The mixnet\<close>

text \<open>
  Claim C7. \<open>verifyShuffleProof\<close> reports a proof valid exactly when the two lists have
  the same length: the commitment it recomputes is never compared with the commitment
  of the proof, so a proof with any other commitment is accepted.
\<close>

theorem verifyShuffleProof_valid_iff:
  "sv_isValid (verifyShuffleProof H J p originalVotes shuffledVotes) \<longleftrightarrow>
     length originalVotes = length shuffledVotes"
  by (simp add: verifyShuffleProof_def Let_def)

lemma verifyShuffleProof_example:
  "verifyShuffleProof sha256_table no_stringify
     \<lparr>sp_round = 0, sp_commitment = ''bogus'', sp_timestamp = 0,
      sp_nodeId = ''mix-node-0'', sp_verified = True\<rparr> [example_vote] [example_vote]
   = \<lparr>sv_isValid = True, sv_reason = None, sv_commitment = Some ''bogus'',
      sv_verified = Some True\<rparr>"
  by (simp add: verifyShuffleProof_def Let_def)

subsection \<open>Permutations\<close>

lemma fisher_yates_mset:
  "i < length permutation \<Longrightarrow> (\<forall>k m. 0 < m \<longrightarrow> w_index W k m < m) \<Longrightarrow>
     mset (fst (fisher_yates W permutation i k)) = mset permutation \<and>
     length (fst (fisher_yates W permutation i k)) = length permutation"
proof (induction W permutation i k rule: fisher_yates.induct)
  case (1 W permutation k)
  then show ?case by simp
next
  case (2 W permutation i' k)
  define j where "j = w_index W k (Suc i' + 1)"
  define permutation' where
    "permutation' = permutation[Suc i' := permutation ! j, j := permutation ! Suc i']"
  have "j < Suc i' + 1"
    using "2.prems"(2) by (simp add: j_def)
  then have j: "j < length permutation"
    using "2.prems"(1) by simp
  have m: "mset permutation' = mset permutation"
    using j "2.prems"(1) by (simp add: permutation'_def mset_swap)
  have l: "length permutation' = length permutation"
    by (simp add: permutation'_def)
  have "i' < length permutation'"
    using "2.prems"(1) l by simp
  with "2.IH" [OF refl refl refl] "2.prems"(2)
  have "mset (fst (fisher_yates W permutation' i' (Suc k))) = mset permutation' \<and>
        length (fst (fisher_yates W permutation' i' (Suc k))) = length permutation'"
    by (simp add: permutation'_def j_def)
  with m l show ?case
    by (simp add: Let_def permutation'_def j_def)
qed


lemma generatePermutation_mset:
  assumes "\<forall>k m. 0 < m \<longrightarrow> w_index W k m < m"
  shows "mset (fst (generatePermutation W len k)) = mset [0..<len] \<and>
         length (fst (generatePermutation W len k)) = len"
proof (cases len)
  case 0
  then show ?thesis by (simp add: generatePermutation_def)
next
  case (Suc n)
  then have "len - 1 < length [0..<len]" by simp
  from fisher_yates_mset [OF this assms, of k] show ?thesis
    by (simp add: generatePermutation_def)
qed

lemma apply_permutation_mset:
  assumes "mset permutation = mset [0..<length votes]" "length permutation = length votes"
  shows "mset (map (\<lambda>i. votes ! (permutation ! i)) [0..<length votes]) = mset votes"
proof -
  have "map (\<lambda>i. votes ! (permutation ! i)) [0..<length votes]
      = map ((!) votes) (map ((!) permutation) [0..<length permutation])"
    by (simp add: assms(2))
  also have "\<dots> = map ((!) votes) permutation"
    by (simp only: map_nth)
  finally have "mset (map (\<lambda>i. votes ! (permutation ! i)) [0..<length votes])
      = image_mset ((!) votes) (mset permutation)"
    by simp
  also have "\<dots> = mset (map ((!) votes) [0..<length votes])"
    by (simp only: assms(1) mset_map)
  also have "\<dots> = mset votes"
    by (simp only: map_nth)
  finally show ?thesis .
qed

subsection \<open>Shuffling\<close>

lemma rerandomize_digest:
  "rerandomize H W v k = (digest_vote H W k v, k + 2)"
  by (simp add: rerandomize_def randomBytes_def multiplyWithRandomness_def digest_vote_def)

lemma rerandomize_all_digest:
  "rerandomize_all H W vs k =
     (map (\<lambda>i. digest_vote H W (k + 2 * i) (vs ! i)) [0..<length vs], k + 2 * length vs)"
proof (induction vs arbitrary: k)
  case Nil
  then show ?case by simp
next
  case (Cons v vs)
  have "map (\<lambda>i. digest_vote H W (k + 2 * i) ((v # vs) ! i)) [0..<length (v # vs)]
      = digest_vote H W k v #
        map (\<lambda>i. digest_vote H W (k + 2 + 2 * i) (vs ! i)) [0..<length vs]"
    by (simp add: map_upt_Suc del: upt_Suc)
  with Cons.IH [of "k + 2"] show ?case
    by (simp add: rerandomize_digest)
qed

lemma performShuffle_digest:
  "sr_shuffledVotes (fst (performShuffle H J W votes round k)) =
     map (\<lambda>i. digest_vote H W (snd (generatePermutation W (length votes) k) + 2 * i)
                (votes ! (fst (generatePermutation W (length votes) k) ! i)))
       [0..<length votes]"
  by (simp add: performShuffle_def rerandomize_all_digest generateShuffleProof_def
      split_beta Let_def o_def)

lemma performShuffle_round:
  assumes "\<forall>k m. 0 < m \<longrightarrow> w_index W k m < m"
  shows "digest_round H W votes (sr_shuffledVotes (fst (performShuffle H J W votes round k)))"
  unfolding digest_round_def
  using generatePermutation_mset [OF assms, of "length votes" k] performShuffle_digest
  by blast

lemma shuffle_rounds_digest:
  assumes "\<forall>k m. 0 < m \<longrightarrow> w_index W k m < m"
  shows "(digest_round H W ^^ remaining) votes
           (fst (fst (shuffle_rounds H J W votes proofs round remaining k)))"
proof (induction remaining arbitrary: votes proofs round k)
  case 0
  then show ?case by simp
next
  case (Suc remaining)
  obtain result k1 where p: "performShuffle H J W votes round k = (result, k1)"
    by (cases "performShuffle H J W votes round k")
  from performShuffle_round [OF assms, of H votes J round k] p
  have step: "digest_round H W votes (sr_shuffledVotes result)"
    by simp
  from Suc.IH [of "sr_shuffledVotes result" "proofs @ [sr_proof result]" "Suc round" k1]
  have rest: "(digest_round H W ^^ remaining) (sr_shuffledVotes result)
     (fst (fst (shuffle_rounds H J W votes proofs round (Suc remaining) k)))"
    using p by simp
  from step rest show ?case
    by (rule relpowp_Suc_I2)
qed

lemma digest_round_props:
  assumes "digest_round H W votes out"
  shows "length out = length votes"
    and "mset (map mv_rest out) = mset (map mv_rest votes)"
    and "\<forall>v \<in> set out. \<exists>u \<in> set votes. \<exists>k. v = digest_vote H W k u"
proof -
  from assms obtain p k where p: "mset p = mset [0..<length votes]"
    and out: "out = map (\<lambda>i. digest_vote H W (k + 2 * i) (votes ! (p ! i))) [0..<length votes]"
    unfolding digest_round_def by blast
  from p have lp: "length p = length votes"
    by (metis length_upt mset_eq_length minus_nat.diff_0)
  show "length out = length votes"
    by (simp add: out)
  have "map mv_rest out = map (\<lambda>i. mv_rest (votes ! (p ! i))) [0..<length votes]"
    by (simp add: out digest_vote_def)
  also have "\<dots> = map (\<lambda>i. map mv_rest votes ! (p ! i)) [0..<length (map mv_rest votes)]"
  proof (rule map_cong)
    show "[0..<length votes] = [0..<length (map mv_rest votes)]" by simp
  next
    fix i assume "i \<in> set [0..<length (map mv_rest votes)]"
    then have "i < length p" by (simp add: lp)
    then have "p ! i \<in> set p" by simp
    then have "p ! i \<in># mset p" by simp
    then have "p ! i \<in> set [0..<length votes]"
      unfolding p by simp
    then show "mv_rest (votes ! (p ! i)) = map mv_rest votes ! (p ! i)"
      by simp
  qed
  finally have "mset (map mv_rest out)
      = mset (map (\<lambda>i. map mv_rest votes ! (p ! i)) [0..<length (map mv_rest votes)])"
    by simp
  also have "\<dots> = mset (map mv_rest votes)"
    by (rule apply_permutation_mset) (simp_all add: p lp)
  finally show "mset (map mv_rest out) = mset (map mv_rest votes)" .
  show "\<forall>v \<in> set out. \<exists>u \<in> set votes. \<exists>k. v = digest_vote H W k u"
  proof
    fix v assume "v \<in> set out"
    then obtain i where i: "i < length votes"
      and v: "v = digest_vote H W (k + 2 * i) (votes ! (p ! i))"
      by (auto simp: out)
    from i have "p ! i \<in> set p" by (simp add: lp)
    then have "p ! i \<in># mset p" by simp
    then have "p ! i < length votes"
      unfolding p by simp
    then have "votes ! (p ! i) \<in> set votes" by simp
    with v show "\<exists>u \<in> set votes. \<exists>k. v = digest_vote H W k u" by blast
  qed
qed

lemma digest_rounds_props:
  "(digest_round H W ^^ n) votes out \<Longrightarrow>
     length out = length votes \<and> mset (map mv_rest out) = mset (map mv_rest votes)"
proof (induction n arbitrary: out)
  case 0
  then show ?case by simp
next
  case (Suc n)
  from Suc.prems obtain mid where mid: "(digest_round H W ^^ n) votes mid"
    and last: "digest_round H W mid out"
    by auto
  from Suc.IH [OF mid] digest_round_props(1,2) [OF last] show ?case
    by simp
qed

subsection \<open>Digests are no ciphertexts\<close>

lemma parse_digits_Some:
  "parse_digits base acc s = Some r \<Longrightarrow> c \<in> set s \<Longrightarrow> digit_val base c \<noteq> None"
  by (induction s arbitrary: acc) (auto split: option.splits)

lemma hex_letter_digit_val:
  assumes "c \<in> hex_letters" "base \<le> 10"
  shows "digit_val base c = None"
proof -
  from assms(1) have "c \<in> {CHR ''a'', CHR ''c'', CHR ''d'', CHR ''e'', CHR ''f''}"
    by (simp add: hex_letters_def)
  then show ?thesis
    using assms(2)
    by (elim insertE emptyE; simp add: digit_chars_def digit_val_def lower_char_def)
qed

lemma parse_nat_hex_letter:
  assumes "c \<in> set s" "c \<in> hex_letters" "base \<le> 10"
  shows "parse_nat base s = None"
proof (cases "parse_nat base s")
  case None
  then show ?thesis .
next
  case (Some r)
  then have "parse_digits base 0 s = Some r"
    by (simp add: parse_nat_def split: if_splits)
  from parse_digits_Some [OF this assms(1)] hex_letter_digit_val [OF assms(2,3)]
  show ?thesis by simp
qed

lemma hex_digit_not_space: "c \<in> hex_digits \<Longrightarrow> \<not> is_space c"
  by (auto simp: hex_digits_def is_space_def)

lemma hex_digit_lower: "c \<in> hex_digits \<Longrightarrow> lower_char c = c"
  by (auto simp: hex_digits_def lower_char_def)

lemma StringToBigInt_hex_letter:
  assumes d: "set d \<subseteq> hex_digits" and c: "c \<in> set d" "c \<in> hex_letters"
  shows "StringToBigInt d = Inl SyntaxError"
proof -
  from c have ne: "d \<noteq> []" by auto
  then have "hd d \<in> set d" "last d \<in> set d" by simp_all
  with d have "hd d \<in> hex_digits" "last d \<in> hex_digits"
    by blast+
  then have "\<not> is_space (hd d)" "\<not> is_space (last d)"
    by (simp_all add: hex_digit_not_space)
  with ne have t: "trim d = d" by (rule trim_id)
  have low: "map lower_char d = d"
    using d by (simp add: map_idI hex_digit_lower subset_iff)
  have no: "take 2 d \<noteq> [CHR ''0'', x]" if "x \<notin> hex_digits" for x
  proof
    assume "take 2 d = [CHR ''0'', x]"
    then have "x \<in> set (take 2 d)" by simp
    then have "x \<in> set d" by (rule in_set_takeD)
    with d that show False by auto
  qed
  have x: "take 2 d \<noteq> ''0x''" and o: "take 2 d \<noteq> ''0o''"
    by (rule no, simp add: hex_digits_def)+
  have sign: "hd d \<noteq> CHR ''-''" "hd d \<noteq> CHR ''+''"
    using \<open>hd d \<in> set d\<close> d by (auto simp: hex_digits_def)
  have ten: "parse_nat 10 d = None"
    using c by (rule parse_nat_hex_letter) simp
  have two: "parse_nat 2 (drop 2 d) = None" if b: "take 2 d = ''0b''"
  proof -
    have "set d = set (take 2 d) \<union> set (drop 2 d)"
      by (metis append_take_drop_id set_append)
    with c b have "c \<in> set (drop 2 d)"
      by (auto simp: hex_letters_def)
    then show ?thesis
      using c(2) by (rule parse_nat_hex_letter) simp
  qed
  show ?thesis
    using ne x o sign ten two
    by (simp add: StringToBigInt_def t low)
qed

lemma decrypt_hex_letter:
  assumes "set d \<subseteq> hex_digits" "c \<in> set d" "c \<in> hex_letters"
  shows "decrypt d (Some sk) = Inl SyntaxError"
  using StringToBigInt_hex_letter [OF assms] by (simp add: decrypt_def)

text \<open>
  Claim C4, as amended. When every index drawn for the Fisher-Yates shuffle lies in its
  range, \<open>shuffleVotes\<close> returns the list that \<open>shuffleRounds\<close> rounds make of its input,
  where a round applies a permutation and replaces the ciphertext of every vote by the
  SHA-256 digest of its previous ciphertext followed by the 64 hexadecimal digits of 32
  bytes drawn for this vote, marks the vote as re-randomized and stamps it with the
  time, keeping its other properties (\<open>digest_round\<close>). So the output has as many votes
  as the input, and the other properties of its votes are those of the votes of the
  input, each accounted for once. The plaintexts are not preserved: after at least one
  round every returned ciphertext is such a digest, and \<open>decrypt\<close> fails with a
  SyntaxError on every digest (a string of hexadecimal digits) that has one of the
  letters \<open>a\<close>, \<open>c\<close>, \<open>d\<close>, \<open>e\<close>, \<open>f\<close>.
\<close>

theorem shuffleVotes_permutes:
  assumes "\<forall>k m. 0 < m \<longrightarrow> w_index W k m < m"
  shows "length (mr_shuffledVotes (fst (shuffleVotes H J W this votes k))) = length votes \<and>
         mset (map mv_rest (mr_shuffledVotes (fst (shuffleVotes H J W this votes k))))
           = mset (map mv_rest votes) \<and>
         (digest_round H W ^^ shuffleRounds this) votes
           (mr_shuffledVotes (fst (shuffleVotes H J W this votes k))) \<and>
         (0 < shuffleRounds this \<longrightarrow>
            (\<forall>v \<in> set (mr_shuffledVotes (fst (shuffleVotes H J W this votes k))).
               mv_rerandomized v = Some True \<and>
               (\<exists>previous kr. mv_ciphertext v =
                  Some (H (plus_string [] previous @
                           hex_of_bytes (map (w_bytes W kr) [0..<32])))) \<and>
               (\<forall>d c. mv_ciphertext v = Some d \<and> set d \<subseteq> hex_digits \<and>
                      c \<in> set d \<and> c \<in> hex_letters
                  \<longrightarrow> decrypt d (Some sk) = Inl SyntaxError)))"
proof -
  define out where "out = mr_shuffledVotes (fst (shuffleVotes H J W this votes k))"
  have out: "out = fst (fst (shuffle_rounds H J W votes [] 0 (shuffleRounds this) k))"
    by (simp add: out_def shuffleVotes_def split_beta)
  have chain: "(digest_round H W ^^ shuffleRounds this) votes out"
    unfolding out using assms by (rule shuffle_rounds_digest)
  note props = digest_rounds_props [OF chain]
  have last: "\<forall>v \<in> set out.
      mv_rerandomized v = Some True \<and>
      (\<exists>previous kr. mv_ciphertext v =
         Some (H (plus_string [] previous @ hex_of_bytes (map (w_bytes W kr) [0..<32])))) \<and>
      (\<forall>d c. mv_ciphertext v = Some d \<and> set d \<subseteq> hex_digits \<and> c \<in> set d \<and> c \<in> hex_letters
         \<longrightarrow> decrypt d (Some sk) = Inl SyntaxError)"
    if "0 < shuffleRounds this"
  proof
    fix v assume v: "v \<in> set out"
    from that obtain n where "shuffleRounds this = Suc n"
      by (cases "shuffleRounds this") auto
    with chain obtain mid where "digest_round H W mid out"
      by auto
    from digest_round_props(3) [OF this] v obtain u kr where "v = digest_vote H W kr u"
      by blast
    then have "mv_rerandomized v = Some True"
      and "mv_ciphertext v =
         Some (H (plus_string [] (mv_ciphertext u) @ hex_of_bytes (map (w_bytes W kr) [0..<32])))"
      by (simp_all add: digest_vote_def)
    then show "mv_rerandomized v = Some True \<and>
      (\<exists>previous kr. mv_ciphertext v =
         Some (H (plus_string [] previous @ hex_of_bytes (map (w_bytes W kr) [0..<32])))) \<and>
      (\<forall>d c. mv_ciphertext v = Some d \<and> set d \<subseteq> hex_digits \<and> c \<in> set d \<and> c \<in> hex_letters
         \<longrightarrow> decrypt d (Some sk) = Inl SyntaxError)"
      using decrypt_hex_letter by blast
  qed
  from props chain last show ?thesis
    unfolding out_def by blast
qed

subsection \<open>Two ballots through three rounds\<close>

lemma decrypt_example_one:
  "decrypt ''142988'' (Some example_privateKey) = Inr (Finite 1)"
proof -
  have "StringToBigInt ''142988'' = Inr 142988"
    by (simp add: string_eval)
  moreover have "modPow_loop 1 142988 198 190969 = 86527"
    by code_simp
  ultimately show ?thesis
    by (simp add: decrypt_def decrypt_with_def modPow_def toZn_def L_def Number_def
        example_privateKey_def)
qed

lemma hex_zero_bytes: "hex_of_bytes (map (\<lambda>i. 0) [0..<32]) = zero_factor"
  by code_simp

lemma digest_vote_example:
  "digest_vote sha256_table example_world k v =
     v\<lparr>mv_ciphertext := Some (sha256_table (plus_string [] (mv_ciphertext v) @ zero_factor)),
       mv_rerandomized := Some True, mv_timestamp := Some 1700000000000\<rparr>"
  by (simp add: digest_vote_def example_world_def zero_bytes_def hex_zero_bytes)

lemma generatePermutation_example:
  "generatePermutation example_world (Suc (Suc 0)) k = ([Suc 0, 0], Suc k)"
  by (simp add: generatePermutation_def example_world_def upt_rec)

lemma performShuffle_example:
  "sr_shuffledVotes (fst (performShuffle sha256_table J example_world [u, v] round k))
     = [digest_vote sha256_table example_world 0 v, digest_vote sha256_table example_world 0 u]"
  by (simp add: performShuffle_digest generatePermutation_example digest_vote_example upt_rec)

lemma shuffle_rounds_example:
  "fst (fst (shuffle_rounds sha256_table J example_world [u, v] proofs round 3 k))
     = [(digest_vote sha256_table example_world 0 ^^ 3) v,
        (digest_vote sha256_table example_world 0 ^^ 3) u]"
proof -
  define f :: "'a mixVote \<Rightarrow> 'a mixVote" where "f = digest_vote sha256_table example_world 0"
  have step: "sr_shuffledVotes (fst (performShuffle sha256_table J example_world [a, b] r c))
      = [f b, f a]" for a b r c
    by (simp add: f_def performShuffle_example)
  have "fst (fst (shuffle_rounds sha256_table J example_world [u, v] proofs round
                    (Suc (Suc (Suc 0))) k))
      = [f (f (f v)), f (f (f u))]"
    by (simp add: split_beta step)
  then show ?thesis
    by (simp add: f_def eval_nat_numeral)
qed

lemma example_shuffle:
  "mr_shuffledVotes
     (fst (shuffleVotes sha256_table no_stringify example_world example_mixnets
             example_votes 0))
   = [\<lparr>mv_ciphertext =
         Some ''66b2f38f61dbc9c1f0339e946e324af3e61eae84f3858c1188e0069207ad527b'',
       mv_rerandomized = Some True, mv_timestamp = Some 1700000000000, mv_rest = 2\<rparr>,
      \<lparr>mv_ciphertext =
         Some ''9dd1b3152f90e31e945eb02472642132fe0ad8b06d0eb2c29938794cfa007fbe'',
       mv_rerandomized = Some True, mv_timestamp = Some 1700000000000, mv_rest = 1\<rparr>]"
proof -
  define f :: "nat mixVote \<Rightarrow> nat mixVote" where "f = digest_vote sha256_table example_world 0"
  define v1 :: "nat mixVote" where
    "v1 = \<lparr>mv_ciphertext = Some ''181881'', mv_rerandomized = None, mv_timestamp = None,
           mv_rest = 1\<rparr>"
  define v2 :: "nat mixVote" where
    "v2 = \<lparr>mv_ciphertext = Some ''142988'', mv_rerandomized = None, mv_timestamp = None,
           mv_rest = 2\<rparr>"
  have a1: "f v1 =
      \<lparr>mv_ciphertext =
         Some ''5b90fef330ef4380bd130cae3888d3107f8fded29c5b511d7d880e79fdf32219'',
       mv_rerandomized = Some True, mv_timestamp = Some 1700000000000, mv_rest = 1\<rparr>"
    by (simp add: f_def v1_def digest_vote_example plus_string_def sha256_table_def
        zero_factor_def G_hex_def)
  have a2: "f (f v1) =
      \<lparr>mv_ciphertext =
         Some ''db54cff251f6f9d8506762ff44da22bb77d7b725c18803243452cb0c53e854a6'',
       mv_rerandomized = Some True, mv_timestamp = Some 1700000000000, mv_rest = 1\<rparr>"
    unfolding a1
    by (simp add: f_def digest_vote_example plus_string_def sha256_table_def
        zero_factor_def G_hex_def)
  have a3: "f (f (f v1)) =
      \<lparr>mv_ciphertext =
         Some ''9dd1b3152f90e31e945eb02472642132fe0ad8b06d0eb2c29938794cfa007fbe'',
       mv_rerandomized = Some True, mv_timestamp = Some 1700000000000, mv_rest = 1\<rparr>"
    unfolding a2
    by (simp add: f_def digest_vote_example plus_string_def sha256_table_def
        zero_factor_def G_hex_def)
  have b1: "f v2 =
      \<lparr>mv_ciphertext =
         Some ''d2a50ff027509ca30e8601be178d13a0fdbe790645a6d0be61c535a683a431d3'',
       mv_rerandomized = Some True, mv_timestamp = Some 1700000000000, mv_rest = 2\<rparr>"
    by (simp add: f_def v2_def digest_vote_example plus_string_def sha256_table_def
        zero_factor_def G_hex_def)
  have b2: "f (f v2) =
      \<lparr>mv_ciphertext =
         Some ''d904962428e2cd5350810e1b6a274ca0eb65c93be558b694639bbef0250b9582'',
       mv_rerandomized = Some True, mv_timestamp = Some 1700000000000, mv_rest = 2\<rparr>"
    unfolding b1
    by (simp add: f_def digest_vote_example plus_string_def sha256_table_def
        zero_factor_def G_hex_def)
  have b3: "f (f (f v2)) =
      \<lparr>mv_ciphertext =
         Some ''66b2f38f61dbc9c1f0339e946e324af3e61eae84f3858c1188e0069207ad527b'',
       mv_rerandomized = Some True, mv_timestamp = Some 1700000000000, mv_rest = 2\<rparr>"
    unfolding b2
    by (simp add: f_def digest_vote_example plus_string_def sha256_table_def
        zero_factor_def G_hex_def)
  have "mr_shuffledVotes
     (fst (shuffleVotes sha256_table no_stringify example_world example_mixnets
             example_votes 0))
    = fst (fst (shuffle_rounds sha256_table no_stringify example_world [v1, v2] [] 0 3 0))"
    by (simp add: shuffleVotes_def example_mixnets_def example_votes_def v1_def v2_def
        split_beta)
  also have "\<dots> = [(f ^^ 3) v2, (f ^^ 3) v1]"
    unfolding f_def by (rule shuffle_rounds_example)
  also have "\<dots> = [f (f (f v2)), f (f (f v1))]"
    by (simp add: eval_nat_numeral)
  finally show ?thesis
    by (simp only: a3 b3)
qed

text \<open>
  The claim as stated fails: the ballots \<open>181881\<close> and \<open>142988\<close> encrypt 2 and 1 under the
  example key, and after three rounds their ciphertexts are hexadecimal digests that
  \<open>decrypt\<close> cannot even read.
\<close>

theorem shuffleVotes_plaintext_counterexample:
  "map (\<lambda>v. map_option (\<lambda>c. decrypt c (Some example_privateKey)) (mv_ciphertext v))
     example_votes = [Some (Inr (Finite 2)), Some (Inr (Finite 1))] \<and>
   map (\<lambda>v. map_option (\<lambda>c. decrypt c (Some example_privateKey)) (mv_ciphertext v))
     (mr_shuffledVotes
        (fst (shuffleVotes sha256_table no_stringify example_world example_mixnets
                example_votes 0))) = [Some (Inl SyntaxError), Some (Inl SyntaxError)]"
proof -
  have a: "decrypt ''181881'' (Some example_privateKey) = Inr (Finite 2)"
    using decrypt_example by (simp add: example_privateKey_def)
  have b: "decrypt ''9dd1b3152f90e31e945eb02472642132fe0ad8b06d0eb2c29938794cfa007fbe''
             (Some example_privateKey) = Inl SyntaxError"
    by (rule decrypt_hex_letter [where c = "CHR ''f''"])
       (simp_all add: hex_digits_def hex_letters_def)
  have c: "decrypt ''66b2f38f61dbc9c1f0339e946e324af3e61eae84f3858c1188e0069207ad527b''
             (Some example_privateKey) = Inl SyntaxError"
    by (rule decrypt_hex_letter [where c = "CHR ''f''"])
       (simp_all add: hex_digits_def hex_letters_def)
  show ?thesis
    unfolding example_shuffle by (simp add: a b c decrypt_example_one example_votes_def)
qed

theorem shuffleVotes_permutes_witness:
  "mr_shuffledVotes
     (fst (shuffleVotes sha256_table no_stringify example_world example_mixnets
             example_votes 0))
   = [\<lparr>mv_ciphertext =
         Some ''66b2f38f61dbc9c1f0339e946e324af3e61eae84f3858c1188e0069207ad527b'',
       mv_rerandomized = Some True, mv_timestamp = Some 1700000000000, mv_rest = 2\<rparr>,
      \<lparr>mv_ciphertext =
         Some ''9dd1b3152f90e31e945eb02472642132fe0ad8b06d0eb2c29938794cfa007fbe'',
       mv_rerandomized = Some True, mv_timestamp = Some 1700000000000, mv_rest = 1\<rparr>] \<and>
   length (mr_shuffledVotes
     (fst (shuffleVotes sha256_table no_stringify example_world example_mixnets
             example_votes 0))) = 2 \<and>
   mset (map mv_rest (mr_shuffledVotes
     (fst (shuffleVotes sha256_table no_stringify example_world example_mixnets
             example_votes 0)))) = {#1, 2#} \<and>
   (digest_round sha256_table example_world ^^ 3) example_votes
     (mr_shuffledVotes
       (fst (shuffleVotes sha256_table no_stringify example_world example_mixnets
               example_votes 0))) \<and>
   decrypt ''66b2f38f61dbc9c1f0339e946e324af3e61eae84f3858c1188e0069207ad527b''
     (Some example_privateKey) = Inl SyntaxError \<and>
   decrypt ''9dd1b3152f90e31e945eb02472642132fe0ad8b06d0eb2c29938794cfa007fbe''
     (Some example_privateKey) = Inl SyntaxError"
proof -
  define out where "out = mr_shuffledVotes
     (fst (shuffleVotes sha256_table no_stringify example_world example_mixnets
             example_votes 0))"
  have range: "\<forall>k m. 0 < m \<longrightarrow> w_index example_world k m < m"
    by (simp add: example_world_def)
  have rounds: "shuffleRounds example_mixnets = 3"
    by (simp add: example_mixnets_def)
  note inst = shuffleVotes_permutes [OF range, of sha256_table no_stringify example_mixnets
      example_votes 0 example_privateKey, unfolded rounds, folded out_def]
  from inst have l: "length out = length example_votes"
    and m: "mset (map mv_rest out) = mset (map mv_rest example_votes)"
    and c: "(digest_round sha256_table example_world ^^ 3) example_votes out"
    and d: "\<forall>v \<in> set out. \<forall>d c. mv_ciphertext v = Some d \<and> set d \<subseteq> hex_digits \<and>
              c \<in> set d \<and> c \<in> hex_letters
              \<longrightarrow> decrypt d (Some example_privateKey) = Inl SyntaxError"
    by simp_all
  have e: "out
   = [\<lparr>mv_ciphertext =
         Some ''66b2f38f61dbc9c1f0339e946e324af3e61eae84f3858c1188e0069207ad527b'',
       mv_rerandomized = Some True, mv_timestamp = Some 1700000000000, mv_rest = 2\<rparr>,
      \<lparr>mv_ciphertext =
         Some ''9dd1b3152f90e31e945eb02472642132fe0ad8b06d0eb2c29938794cfa007fbe'',
       mv_rerandomized = Some True, mv_timestamp = Some 1700000000000, mv_rest = 1\<rparr>]"
    unfolding out_def by (rule example_shuffle)
  have d1: "decrypt ''66b2f38f61dbc9c1f0339e946e324af3e61eae84f3858c1188e0069207ad527b''
     (Some example_privateKey) = Inl SyntaxError"
  proof -
    have "\<lparr>mv_ciphertext =
         Some ''66b2f38f61dbc9c1f0339e946e324af3e61eae84f3858c1188e0069207ad527b'',
       mv_rerandomized = Some True, mv_timestamp = Some 1700000000000, mv_rest = 2\<rparr>
       \<in> set out"
      by (simp add: e)
    from d [rule_format, OF this,
        of "''66b2f38f61dbc9c1f0339e946e324af3e61eae84f3858c1188e0069207ad527b''" "CHR ''f''"]
    show ?thesis
      by (simp add: hex_digits_def hex_letters_def)
  qed
  have d2: "decrypt ''9dd1b3152f90e31e945eb02472642132fe0ad8b06d0eb2c29938794cfa007fbe''
     (Some example_privateKey) = Inl SyntaxError"
  proof -
    have "\<lparr>mv_ciphertext =
         Some ''9dd1b3152f90e31e945eb02472642132fe0ad8b06d0eb2c29938794cfa007fbe'',
       mv_rerandomized = Some True, mv_timestamp = Some 1700000000000, mv_rest = 1\<rparr>
       \<in> set out"
      by (simp add: e)
    from d [rule_format, OF this,
        of "''9dd1b3152f90e31e945eb02472642132fe0ad8b06d0eb2c29938794cfa007fbe''" "CHR ''f''"]
    show ?thesis
      by (simp add: hex_digits_def hex_letters_def)
  qed
  from l have l': "length out = 2" by (simp add: example_votes_def)
  from m have m': "mset (map mv_rest out) = {#1, 2#}" by (simp add: example_votes_def)
  from e l' m' c d1 d2 show ?thesis
    unfolding out_def by blast
qed

section \<open>Polynomial functions\<close>

lemma polyfun_polyval: "polyfun (length cs) (polyval cs)"
proof (induction cs)
  case Nil
  have "polyval [] = (\<lambda>x. 0)" by (rule ext) simp
  then show ?case by (simp add: polyfun.zero)
next
  case (Cons c cs)
  have "polyval (c # cs) = (\<lambda>x. c + x * polyval cs x)" by (rule ext) simp
  with Cons polyfun.step [of "length cs" "polyval cs" c] show ?case by simp
qed

lemma polyfun_Suc: "polyfun k p \<Longrightarrow> polyfun (Suc k) p"
proof (induction rule: polyfun.induct)
  case zero
  have "polyfun (Suc 0) (\<lambda>x. 0 + x * (\<lambda>x. 0) x)"
    by (rule polyfun.step) (rule polyfun.zero)
  then show ?case by simp
next
  case (step k q c)
  then show ?case by (simp add: polyfun.step)
qed

lemma polyfun_add_degree: "polyfun k p \<Longrightarrow> polyfun (k + d) p"
  by (induction d) (simp_all add: polyfun_Suc)

lemma polyfun_mono: "polyfun k p \<Longrightarrow> k \<le> k' \<Longrightarrow> polyfun k' p"
  using polyfun_add_degree [of k p "k' - k"] by simp

lemma polyfun_scale: "polyfun k p \<Longrightarrow> polyfun k (\<lambda>x. a * p x)"
proof (induction rule: polyfun.induct)
  case zero
  then show ?case by (simp add: polyfun.zero)
next
  case (step k q c)
  have "(\<lambda>x. a * (c + x * q x)) = (\<lambda>x. a * c + x * (a * q x))"
    by (rule ext) (simp add: algebra_simps)
  with polyfun.step [OF step.IH, of "a * c"] show ?case by simp
qed

lemma polyfun_add: "polyfun k p \<Longrightarrow> polyfun k q \<Longrightarrow> polyfun k (\<lambda>x. p x + q x)"
proof (induction arbitrary: q rule: polyfun.induct)
  case zero
  then show ?case by simp
next
  case (step k p c)
  from step.prems obtain q' d where q: "q = (\<lambda>x. d + x * q' x)" and q': "polyfun k q'"
    by (cases rule: polyfun.cases) auto
  have "(\<lambda>x. (c + x * p x) + q x) = (\<lambda>x. (c + d) + x * (p x + q' x))"
    by (rule ext) (simp add: q algebra_simps)
  with polyfun.step [OF step.IH [OF q'], of "c + d"] show ?case by simp
qed

lemma polyfun_linear_mult: "polyfun k p \<Longrightarrow> polyfun (Suc k) (\<lambda>x. (x - a) * p x)"
proof -
  assume p: "polyfun k p"
  have 1: "polyfun (Suc k) (\<lambda>x. 0 + x * p x)"
    using p by (rule polyfun.step)
  have 2: "polyfun (Suc k) (\<lambda>x. (- a) * p x)"
    using p by (intro polyfun_Suc polyfun_scale)
  have "(\<lambda>x. (x - a) * p x) = (\<lambda>x. (0 + x * p x) + (- a) * p x)"
    by (rule ext) (simp add: algebra_simps)
  with polyfun_add [OF 1 2] show ?thesis by simp
qed

lemma polyfun_const: "polyfun (Suc 0) (\<lambda>x. c)"
  using polyfun.step [OF polyfun.zero, of c] by simp

lemma polyfun_prod_linear:
  "polyfun (Suc (length js)) (\<lambda>x. prod_list (map (\<lambda>j. x - f j) js))"
proof (induction js)
  case Nil
  then show ?case by (simp add: polyfun_const)
next
  case (Cons j js)
  from polyfun_linear_mult [OF Cons, of "f j"] show ?case by simp
qed

lemma polyfun_sum_list:
  "(\<And>i. i \<in> set is \<Longrightarrow> polyfun k (f i)) \<Longrightarrow>
     polyfun k (\<lambda>x. sum_list (map (\<lambda>i. f i x) is))"
proof (induction "is")
  case Nil
  have "polyfun k (\<lambda>x. 0)"
    using polyfun.zero by (rule polyfun_mono) simp
  then show ?case by simp
next
  case (Cons i "is")
  have "polyfun k (\<lambda>x. f i x + sum_list (map (\<lambda>i. f i x) is))"
    using Cons by (intro polyfun_add) simp_all
  then show ?case by simp
qed

lemma polyfun_divide:
  "polyfun (Suc k) p \<Longrightarrow> \<exists>q. polyfun k q \<and> (\<forall>x. p x = (x - a) * q x + p a)"
proof (induction k arbitrary: p)
  case 0
  then obtain p1 c where p: "p = (\<lambda>x. c + x * p1 x)" and p1: "polyfun 0 p1"
    by (cases rule: polyfun.cases) auto
  from p1 have "p1 = (\<lambda>x. 0)"
    by (cases rule: polyfun.cases) auto
  with p have "\<forall>x. p x = (x - a) * (\<lambda>x. 0) x + p a" by simp
  with polyfun.zero show ?case by blast
next
  case (Suc k)
  from Suc.prems obtain p1 c where p: "p = (\<lambda>x. c + x * p1 x)" and p1: "polyfun (Suc k) p1"
    by (cases rule: polyfun.cases) auto
  from Suc.IH [OF p1] obtain q1 where q1: "polyfun k q1"
    and d: "\<forall>x. p1 x = (x - a) * q1 x + p1 a"
    by blast
  have "polyfun (Suc k) (\<lambda>x. p1 a + x * q1 x)"
    using q1 by (rule polyfun.step)
  moreover have "\<forall>x. p x = (x - a) * (p1 a + x * q1 x) + p a"
  proof
    fix x
    from d have dx: "p1 x = (x - a) * q1 x + p1 a" by (rule spec)
    have "p x = c + x * p1 x"
      by (simp add: p)
    also have "\<dots> = c + x * ((x - a) * q1 x + p1 a)"
      by (subst dx) (rule refl)
    also have "\<dots> = (x - a) * (p1 a + x * q1 x) + (c + a * p1 a)"
      by (simp add: algebra_simps)
    finally show "p x = (x - a) * (p1 a + x * q1 x) + p a"
      by (simp add: p)
  qed
  ultimately show ?case by blast
qed

lemma polyfun_roots:
  "polyfun (length xs) p \<Longrightarrow> distinct xs \<Longrightarrow>
   (\<forall>x \<in> set xs. \<forall>y \<in> set xs. x \<noteq> y \<longrightarrow> coprime (x - y) m) \<Longrightarrow>
   (\<forall>x \<in> set xs. m dvd p x) \<Longrightarrow> m dvd p y"
proof (induction xs arbitrary: p y)
  case Nil
  then have "p = (\<lambda>x. 0)"
    by (cases rule: polyfun.cases) auto
  then show ?case by simp
next
  case (Cons a xs)
  from Cons.prems(1) have "polyfun (Suc (length xs)) p" by simp
  from polyfun_divide [OF this, of a] obtain q where q: "polyfun (length xs) q"
    and d: "\<forall>x. p x = (x - a) * q x + p a"
    by blast
  from Cons.prems(4) have pa: "m dvd p a" by simp
  have roots: "\<forall>x \<in> set xs. m dvd q x"
  proof
    fix x assume x: "x \<in> set xs"
    with Cons.prems(2) have "x \<noteq> a" by auto
    with Cons.prems(3) x have c: "coprime (x - a) m" by simp
    from Cons.prems(4) x have "m dvd p x" by simp
    moreover from d have "p x = (x - a) * q x + p a" by (rule spec)
    ultimately have "m dvd (x - a) * q x + p a" by simp
    with pa have "m dvd (x - a) * q x"
      using dvd_add_left_iff by blast
    with c show "m dvd q x"
      by (simp add: coprime_dvd_mult_right_iff coprime_commute)
  qed
  from Cons.IH [OF q _ _ roots] Cons.prems(2,3) have "m dvd q y" by simp
  then have "m dvd (y - a) * q y + p a"
    using pa by simp
  moreover from d have "p y = (y - a) * q y + p a" by (rule spec)
  ultimately show ?case by simp
qed

section \<open>Lagrange interpolation at zero\<close>

lemma others_set: "set (others k i) = {j. j < k \<and> j \<noteq> i}"
  by (auto simp: others_def)

lemma others_length: "i < k \<Longrightarrow> Suc (length (others k i)) \<le> k"
proof -
  assume "i < k"
  then have "length (filter (\<lambda>j. i \<noteq> j) [0..<k]) < length [0..<k]"
    by (intro length_filter_less [of i]) simp_all
  then show ?thesis by (simp add: others_def)
qed

lemma polyfun_basis: "i < length xs \<Longrightarrow> polyfun (length xs) (basis xs i)"
proof -
  assume i: "i < length xs"
  have "polyfun (Suc (length (others (length xs) i)))
          (\<lambda>x. prod_list (map (\<lambda>j. x - xs ! j) (others (length xs) i)))"
    by (rule polyfun_prod_linear)
  moreover have "basis xs i = (\<lambda>x. prod_list (map (\<lambda>j. x - xs ! j) (others (length xs) i)))"
    by (rule ext) (simp add: basis_def)
  ultimately show ?thesis
    using others_length [OF i] by (simp add: polyfun_mono)
qed

lemma basis_vanishes:
  assumes "l < length xs" "i \<noteq> l"
  shows "basis xs i (xs ! l) = 0"
proof -
  have "l \<in> set (others (length xs) i)"
    using assms by (simp add: others_set)
  then have "(0::int) \<in> set (map (\<lambda>j. xs ! l - xs ! j) (others (length xs) i))"
    by (auto simp: image_iff intro!: bexI [of _ l])
  then show ?thesis
    by (simp only: basis_def prod_list_zero_iff)
qed

lemma sum_list_single:
  assumes "l < k" "\<And>i. i < k \<Longrightarrow> i \<noteq> l \<Longrightarrow> h i = (0::int)"
  shows "sum_list (map h [0..<k]) = h l"
proof -
  have "sum_list (map h [0..<k]) = sum h {0..<k}"
    by (simp add: interv_sum_list_conv_sum_set_nat)
  also have "\<dots> = (\<Sum>i\<in>{0..<k}. if i = l then h l else 0)"
    using assms(2) by (intro sum.cong) auto
  also have "\<dots> = h l"
    using assms(1) by simp
  finally show ?thesis .
qed

lemma basis_coprime:
  assumes "distinct xs" "i < length xs"
    and "\<forall>x \<in> set xs. \<forall>y \<in> set xs. x \<noteq> y \<longrightarrow> coprime (x - y) m"
  shows "coprime (basis xs i (xs ! i)) m"
  unfolding basis_def
proof (rule prod_list_coprime_left)
  fix d assume "d \<in> set (map (\<lambda>j. xs ! i - xs ! j) (others (length xs) i))"
  then obtain j where j: "j < length xs" "j \<noteq> i" and d: "d = xs ! i - xs ! j"
    by (auto simp: others_set)
  from assms(1,2) j have "xs ! i \<noteq> xs ! j"
    by (simp add: nth_eq_iff_index_eq)
  with assms(2,3) j d show "coprime d m"
    by simp
qed

lemma lagrange_at_zero:
  assumes f: "polyfun (length xs) f" and dist: "distinct xs"
    and cop: "\<forall>x \<in> set xs. \<forall>y \<in> set xs. x \<noteq> y \<longrightarrow> coprime (x - y) m"
    and inv: "\<And>i. i < length xs \<Longrightarrow> m dvd basis xs i (xs ! i) * minv i - 1"
  shows "m dvd f 0 - sum_list (map (\<lambda>i. f (xs ! i) * (basis xs i 0 * minv i)) [0..<length xs])"
proof -
  define k where "k = length xs"
  define g where
    "g = (\<lambda>x. f x + (- 1) * sum_list (map (\<lambda>i. (f (xs ! i) * minv i) * basis xs i x) [0..<k]))"
  have "polyfun k (\<lambda>x. sum_list (map (\<lambda>i. (f (xs ! i) * minv i) * basis xs i x) [0..<k]))"
  proof (rule polyfun_sum_list)
    fix i assume "i \<in> set [0..<k]"
    then have "i < length xs" by (simp add: k_def)
    then have "polyfun k (basis xs i)"
      unfolding k_def by (rule polyfun_basis)
    then show "polyfun k (\<lambda>x. (f (xs ! i) * minv i) * basis xs i x)"
      by (rule polyfun_scale)
  qed
  then have "polyfun k
      (\<lambda>x. (- 1) * sum_list (map (\<lambda>i. (f (xs ! i) * minv i) * basis xs i x) [0..<k]))"
    by (rule polyfun_scale)
  with f have g: "polyfun (length xs) g"
    unfolding g_def k_def by (rule polyfun_add)
  have roots: "\<forall>x \<in> set xs. m dvd g x"
  proof
    fix x assume "x \<in> set xs"
    then obtain l where l: "l < k" and x: "x = xs ! l"
      by (auto simp: in_set_conv_nth k_def)
    have "sum_list (map (\<lambda>i. (f (xs ! i) * minv i) * basis xs i (xs ! l)) [0..<k])
        = (f (xs ! l) * minv l) * basis xs l (xs ! l)"
      using l by (intro sum_list_single) (simp_all add: basis_vanishes k_def)
    then have "g x = - (f (xs ! l) * (basis xs l (xs ! l) * minv l - 1))"
      by (simp add: g_def x algebra_simps)
    moreover have "m dvd basis xs l (xs ! l) * minv l - 1"
      using l by (intro inv) (simp add: k_def)
    ultimately show "m dvd g x"
      by simp
  qed
  from polyfun_roots [OF g dist cop roots] have "m dvd g 0" .
  moreover have "g 0 = f 0 - sum_list (map (\<lambda>i. f (xs ! i) * (basis xs i 0 * minv i)) [0..<k])"
  proof -
    have "(\<lambda>i. (f (xs ! i) * minv i) * basis xs i 0) = (\<lambda>i. f (xs ! i) * (basis xs i 0 * minv i))"
      by (rule ext) (simp add: algebra_simps)
    then show ?thesis by (simp add: g_def)
  qed
  ultimately show ?thesis by (simp add: k_def)
qed

section \<open>Generating the shares\<close>

lemma bigint_rem_nonneg:
  "0 \<le> a \<Longrightarrow> 0 < m \<Longrightarrow> bigint_rem a m = Inr (a mod m)"
  by (simp add: bigint_rem_def smod_mod_positive)

lemma bigint_rem_congruent:
  "m \<noteq> 0 \<Longrightarrow> \<exists>r. bigint_rem a m = Inr r \<and> r mod m = a mod m"
  by (simp add: bigint_rem_def smod_congruent)

lemma random_coefficients_correct:
  "0 < m \<Longrightarrow> \<exists>as k'. random_coefficients R m cnt k = (Inr as, k') \<and> length as = cnt \<and>
     (\<forall>a \<in> set as. 0 \<le> a)"
proof (induction cnt arbitrary: k)
  case 0
  then show ?case by simp
next
  case (Suc cnt)
  obtain buffer k1 where rb: "randomBytes R (byte_length m) k = (buffer, k1)"
    by (cases "randomBytes R (byte_length m) k")
  have g: "generateRandomBigInt R m k = (Inr (bytes_to_bigint buffer mod m), k1)"
    using rb Suc.prems bytes_to_bigint_nonneg [of buffer]
    by (simp add: generateRandomBigInt_def bigint_rem_nonneg)
  from Suc.IH [OF Suc.prems, of k1] obtain as k' where
    as: "random_coefficients R m cnt k1 = (Inr as, k')" "length as = cnt" "\<forall>a \<in> set as. 0 \<le> a"
    by blast
  have "0 \<le> bytes_to_bigint buffer mod m"
    using Suc.prems by simp
  with g as show ?case by simp
qed

lemma evaluate_polynomial_correct:
  "0 < m \<Longrightarrow> 0 \<le> x \<Longrightarrow> 0 \<le> y \<Longrightarrow> y < m \<Longrightarrow> 0 \<le> xPower \<Longrightarrow> (\<forall>c \<in> set cs. 0 \<le> c) \<Longrightarrow>
     evaluate_polynomial m x y xPower cs = Inr ((y + xPower * polyval cs x) mod m)"
proof (induction cs arbitrary: y xPower)
  case Nil
  then show ?case by simp
next
  case (Cons c cs)
  define t where "t = (c * xPower) mod m"
  define y' where "y' = (y + t) mod m"
  define xPower' where "xPower' = (xPower * x) mod m"
  have c: "0 \<le> c" using Cons.prems by simp
  have t: "bigint_rem (c * xPower) m = Inr t"
    using c Cons.prems by (simp add: bigint_rem_nonneg t_def)
  have t0: "0 \<le> t" using Cons.prems by (simp add: t_def)
  have y': "bigint_rem (y + t) m = Inr y'"
    using t0 Cons.prems by (simp add: bigint_rem_nonneg y'_def)
  have xp: "bigint_rem (xPower * x) m = Inr xPower'"
    using Cons.prems by (simp add: bigint_rem_nonneg xPower'_def)
  have IH: "evaluate_polynomial m x y' xPower' cs = Inr ((y' + xPower' * polyval cs x) mod m)"
    using Cons.prems by (intro Cons.IH) (simp_all add: y'_def xPower'_def)
  have "(y' + xPower' * polyval cs x) mod m
      = ((y + c * xPower) + (xPower * x) * polyval cs x) mod m"
    unfolding y'_def t_def xPower'_def
    by (metis (no_types, opaque_lifting) mod_add_eq mod_add_right_eq mod_mult_left_eq)
  also have "\<dots> = (y + xPower * polyval (c # cs) x) mod m"
    by (simp add: algebra_simps)
  finally show ?case
    using t y' xp IH by simp
qed

lemma share_loop_correct:
  "0 < m \<Longrightarrow> (\<forall>c \<in> set cs. 0 \<le> c) \<Longrightarrow>
     share_loop m cs xs =
       Inr (map (\<lambda>x. \<lparr>share_id = int x, share_value = polyval cs (int x) mod m\<rparr>) xs)"
proof (induction xs)
  case Nil
  then show ?case by simp
next
  case (Cons x xs)
  have "evaluate_polynomial m (int x) 0 1 cs = Inr ((0 + 1 * polyval cs (int x)) mod m)"
    using Cons.prems by (intro evaluate_polynomial_correct) simp_all
  with Cons show ?case by simp
qed

lemma generateSecretShares_correct:
  assumes "0 < m" "0 \<le> secret" "1 \<le> k"
  shows "\<exists>cs kr'. generateSecretShares R secret n k m kr =
           (Inr (map (\<lambda>x. \<lparr>share_id = int x, share_value = polyval cs (int x) mod m\<rparr>)
                   [1..<Suc n]), kr') \<and>
         length cs = k \<and> polyval cs 0 = secret"
proof -
  from random_coefficients_correct [OF assms(1), of R "k - 1" kr] obtain as kr' where
    as: "random_coefficients R m (k - 1) kr = (Inr as, kr')" "length as = k - 1"
      "\<forall>a \<in> set as. 0 \<le> a"
    by blast
  define cs where "cs = take k (secret # as)"
  have cs: "cs = secret # as"
    using as(2) assms(3) by (simp add: cs_def)
  have nonneg: "\<forall>c \<in> set cs. 0 \<le> c"
    using as(3) assms(2) by (simp add: cs)
  have "generateSecretShares R secret n k m kr =
      (Inr (map (\<lambda>x. \<lparr>share_id = int x, share_value = polyval cs (int x) mod m\<rparr>)
              [1..<Suc n]), kr')"
    using as(1) share_loop_correct [OF assms(1) nonneg, of "[1..<Suc n]"]
    by (simp add: generateSecretShares_def cs_def)
  moreover have "length cs = k" using as(2) assms(3) by (simp add: cs)
  moreover have "polyval cs 0 = secret" by (simp add: cs)
  ultimately show ?thesis by blast
qed

section \<open>Reconstructing the secret\<close>

lemma modInv_mod: "0 < n \<Longrightarrow> a mod n = b mod n \<Longrightarrow> modInv a n = modInv b n"
  by (simp add: modInv_def toZn_pos)

lemma lagrange_loop_correct:
  "m \<noteq> 0 \<Longrightarrow>
   \<exists>num' den'. lagrange_loop m S i num den js = Inr (num', den') \<and>
     num' mod m = (num * prod_list (map (\<lambda>j. 0 - share_id (S ! j)) (filter (\<lambda>j. i \<noteq> j) js))) mod m \<and>
     den' mod m = (den * prod_list (map (\<lambda>j. share_id (S ! i) - share_id (S ! j))
                                     (filter (\<lambda>j. i \<noteq> j) js))) mod m"
proof (induction js arbitrary: num den)
  case Nil
  then show ?case by simp
next
  case (Cons j js)
  show ?case
  proof (cases "i = j")
    case True
    with Cons.IH [OF Cons.prems, of num den] show ?thesis by simp
  next
    case False
    from bigint_rem_congruent [OF Cons.prems, of "num * (- share_id (S ! j))"]
    obtain num1 where n1: "bigint_rem (num * (- share_id (S ! j))) m = Inr num1"
      "num1 mod m = (num * (- share_id (S ! j))) mod m"
      by blast
    from bigint_rem_congruent [OF Cons.prems, of "den * (share_id (S ! i) - share_id (S ! j))"]
    obtain den1 where d1: "bigint_rem (den * (share_id (S ! i) - share_id (S ! j))) m = Inr den1"
      "den1 mod m = (den * (share_id (S ! i) - share_id (S ! j))) mod m"
      by blast
    from Cons.IH [OF Cons.prems, of num1 den1] obtain num' den' where
      r: "lagrange_loop m S i num1 den1 js = Inr (num', den')"
      and n': "num' mod m =
        (num1 * prod_list (map (\<lambda>j. 0 - share_id (S ! j)) (filter (\<lambda>j. i \<noteq> j) js))) mod m"
      and d': "den' mod m =
        (den1 * prod_list (map (\<lambda>j. share_id (S ! i) - share_id (S ! j))
                             (filter (\<lambda>j. i \<noteq> j) js))) mod m"
      by blast
    have "num' mod m =
        ((num * (- share_id (S ! j))) *
          prod_list (map (\<lambda>j. 0 - share_id (S ! j)) (filter (\<lambda>j. i \<noteq> j) js))) mod m"
      using n' n1(2) by (metis mod_mult_left_eq)
    moreover have "den' mod m =
        ((den * (share_id (S ! i) - share_id (S ! j))) *
          prod_list (map (\<lambda>j. share_id (S ! i) - share_id (S ! j))
                       (filter (\<lambda>j. i \<noteq> j) js))) mod m"
      using d' d1(2) by (metis mod_mult_left_eq)
    ultimately show ?thesis
      using False n1(1) d1(1) r by (simp add: mult.assoc)
  qed
qed

lemma lagrange_loop_basis:
  assumes "m \<noteq> 0" "i < length S"
  shows "\<exists>num den. lagrange_loop m S i 1 1 [0..<length S] = Inr (num, den) \<and>
     num mod m = basis (map share_id S) i 0 mod m \<and>
     den mod m = basis (map share_id S) i (share_id (S ! i)) mod m"
proof -
  have b: "basis (map share_id S) i x =
      prod_list (map (\<lambda>j. x - share_id (S ! j)) (filter (\<lambda>j. i \<noteq> j) [0..<length S]))" for x
    unfolding basis_def
    by (rule arg_cong [where f = prod_list], rule map_cong) (auto simp: others_def)
  from lagrange_loop_correct [OF assms(1), of S i 1 1 "[0..<length S]"]
  show ?thesis
    by (simp add: b)
qed

text \<open>The inverse \<open>modInv\<close> returns, or 0 where it throws.\<close>

lemma reconstruct_loop_correct:
  assumes m: "1 < m"
    and idx: "\<forall>i \<in> set ks. i < length S \<and>
               coprime (basis (map share_id S) i (share_id (S ! i))) m"
  shows "\<exists>s'. reconstruct_loop m S secret ks = Inr s' \<and>
     s' mod m =
       (secret + sum_list (map (\<lambda>i. share_value (S ! i) *
          (basis (map share_id S) i 0 *
             (case modInv (basis (map share_id S) i (share_id (S ! i))) m of
                Inr x \<Rightarrow> x | Inl e \<Rightarrow> 0))) ks)) mod m"
  using idx
proof (induction ks arbitrary: secret)
  case Nil
  then show ?case by simp
next
  case (Cons i ks)
  let ?D = "basis (map share_id S) i (share_id (S ! i))"
  let ?N = "basis (map share_id S) i 0"
  from Cons.prems have i: "i < length S" and c: "coprime ?D m" by simp_all
  from m have m0: "m \<noteq> 0" "0 < m" by simp_all
  from lagrange_loop_basis [OF m0(1) i] obtain num den where
    l: "lagrange_loop m S i 1 1 [0..<length S] = Inr (num, den)"
    and num: "num mod m = ?N mod m" and den: "den mod m = ?D mod m"
    by blast
  from modInv_correct [OF m c] obtain x where x: "modInv ?D m = Inr x"
    by blast
  have dinv: "modInv den m = Inr x"
    using modInv_mod [OF m0(2) den] x by simp
  from bigint_rem_congruent [OF m0(1), of "num * x"] obtain lc where
    lc: "bigint_rem (num * x) m = Inr lc" "lc mod m = (num * x) mod m"
    by blast
  from bigint_rem_congruent [OF m0(1), of "share_value (S ! i) * lc"] obtain t where
    t: "bigint_rem (share_value (S ! i) * lc) m = Inr t"
      "t mod m = (share_value (S ! i) * lc) mod m"
    by blast
  from bigint_rem_congruent [OF m0(1), of "secret + t"] obtain secret1 where
    s1: "bigint_rem (secret + t) m = Inr secret1" "secret1 mod m = (secret + t) mod m"
    by blast
  from Cons.IH [of secret1] Cons.prems obtain s' where
    r: "reconstruct_loop m S secret1 ks = Inr s'"
    and s': "s' mod m =
       (secret1 + sum_list (map (\<lambda>i. share_value (S ! i) *
          (basis (map share_id S) i 0 *
             (case modInv (basis (map share_id S) i (share_id (S ! i))) m of
                Inr x \<Rightarrow> x | Inl e \<Rightarrow> 0))) ks)) mod m"
    by auto
  let ?T = "sum_list (map (\<lambda>i. share_value (S ! i) *
          (basis (map share_id S) i 0 *
             (case modInv (basis (map share_id S) i (share_id (S ! i))) m of
                Inr x \<Rightarrow> x | Inl e \<Rightarrow> 0))) ks)"
  have "lc mod m = (?N * x) mod m"
    unfolding lc(2) using num by (rule mod_mult_cong) simp
  then have "t mod m = (share_value (S ! i) * (?N * x)) mod m"
    unfolding t(2) by (rule mod_mult_cong [OF refl])
  then have "secret1 mod m = (secret + share_value (S ! i) * (?N * x)) mod m"
    unfolding s1(2) by (rule mod_add_cong [OF refl])
  then have "(secret1 + ?T) mod m = ((secret + share_value (S ! i) * (?N * x)) + ?T) mod m"
    by (rule mod_add_cong) simp
  with s' have eq: "s' mod m = ((secret + share_value (S ! i) * (?N * x)) + ?T) mod m"
    by simp
  have run: "reconstruct_loop m S secret (i # ks) = Inr s'"
    using l dinv lc(1) t(1) s1(1) r by simp
  have "secret + sum_list (map (\<lambda>i. share_value (S ! i) *
          (basis (map share_id S) i 0 *
             (case modInv (basis (map share_id S) i (share_id (S ! i))) m of
                Inr x \<Rightarrow> x | Inl e \<Rightarrow> 0))) (i # ks))
      = (secret + share_value (S ! i) * (?N * x)) + ?T"
    by (simp add: x)
  with eq run show ?case
    by (intro exI [of _ s']) (simp only: simp_thms)
qed

lemma normalise_residue:
  assumes "0 < m"
  shows "bindE (bigint_rem s m) (\<lambda>r. bigint_rem (r + m) m) = Inr (s mod m)"
proof -
  have range: "s smod m \<in> {- \<bar>m\<bar> + 1..\<bar>m\<bar> - 1}"
    using assms by (intro smod_int_range) simp
  then have nonneg: "0 \<le> s smod m + m"
    using assms by simp
  have "(s smod m + m) mod m = (s smod m) mod m" by simp
  also have "\<dots> = s mod m" by (rule smod_congruent)
  finally show ?thesis
    using assms nonneg by (simp add: bigint_rem_def smod_mod_positive)
qed

lemma reconstructSecret_correct:
  assumes m: "1 < m"
    and c: "\<forall>i < length S. coprime (basis (map share_id S) i (share_id (S ! i))) m"
  shows "reconstructSecret S m =
     Inr (sum_list (map (\<lambda>i. share_value (S ! i) *
          (basis (map share_id S) i 0 *
             (case modInv (basis (map share_id S) i (share_id (S ! i))) m of
                Inr x \<Rightarrow> x | Inl e \<Rightarrow> 0))) [0..<length S]) mod m)"
proof -
  from c have "\<forall>i \<in> set [0..<length S]. i < length S \<and>
               coprime (basis (map share_id S) i (share_id (S ! i))) m"
    by simp
  from reconstruct_loop_correct [OF m this, of 0] obtain s' where
    r: "reconstruct_loop m S 0 [0..<length S] = Inr s'"
    and s': "s' mod m =
       (0 + sum_list (map (\<lambda>i. share_value (S ! i) *
          (basis (map share_id S) i 0 *
             (case modInv (basis (map share_id S) i (share_id (S ! i))) m of
                Inr x \<Rightarrow> x | Inl e \<Rightarrow> 0))) [0..<length S])) mod m"
    by blast
  from m have "0 < m" by simp
  from normalise_residue [OF this, of s'] r s' show ?thesis
    by (simp add: reconstructSecret_def)
qed

end
